theory Spec2Isabelle
  imports Main "HOL-Library.Word"
begin

unbundle bit_operations_syntax

section \<open>Machine types and faults\<close>

text \<open>
  \<^verbatim>\<open>size_t\<close> is a 64-bit unsigned word and the SPMC version tag is a \<^verbatim>\<open>uint32_t\<close>;
  both wrap around.  The constructors throw \<^verbatim>\<open>std::logic_error\<close>; the SPMC consumer
  throws \<^verbatim>\<open>std::runtime_error("consumer overlapped at index i")\<close>, modelled as
  \<open>Overlapped i\<close>.  An array allocation that fails throws \<^verbatim>\<open>std::bad_alloc\<close> or its
  subclass \<^verbatim>\<open>std::bad_array_new_length\<close>; both are \<open>BadAlloc\<close>.
\<close>

type_synonym size_t = "64 word"
type_synonym uint32 = "32 word"

datatype error = LogicError | BadAlloc | Overlapped size_t

text \<open>
  What an array allocation depends on: \<open>elem_size\<close> is \<^verbatim>\<open>sizeof\<close> of the slot type and
  \<open>mem_free\<close> the number of bytes the allocation function can still provide.
\<close>

record alloc =
  elem_size :: size_t
  mem_free :: size_t

text \<open>
  \<^verbatim>\<open>std::make_unique<T[]>(n)\<close>, that is \<^verbatim>\<open>new T[n]()\<close>: \<open>n\<close> value-initialised slots (\<open>t0\<close>
  stands for \<^verbatim>\<open>T()\<close>).  The new-expression throws when the size of the array in bytes is
  not a \<^verbatim>\<open>size_t\<close>, and the allocation function throws when it cannot provide that many
  bytes.  The product below is taken in the integers, so it does not wrap.
\<close>

definition can_allocate :: "alloc \<Rightarrow> size_t \<Rightarrow> bool" where
  "can_allocate h n \<longleftrightarrow> uint n * uint (elem_size h) \<le> uint (mem_free h)"

definition make_unique :: "alloc \<Rightarrow> 'a \<Rightarrow> size_t \<Rightarrow> error + 'a list" where
  "make_unique h t0 n =
     (if can_allocate h n then Inr (replicate (unat n) t0) else Inl BadAlloc)"

text \<open>\<^verbatim>\<open>std::bitset<sizeof(size_t) * CHAR_BIT>(capacity).count()\<close>: the number of set bits.\<close>

definition popcount :: "size_t \<Rightarrow> nat" where
  "popcount w = length (filter (bit w) [0..<64])"

text \<open>A power of two, stated without the code's tests.\<close>

definition is_pow2 :: "size_t \<Rightarrow> bool" where
  "is_pow2 c \<longleftrightarrow> (\<exists>k\<in>set [0..<64]. c = 2 ^ k)"

text \<open>The capacities the constructors accept: \<open>2 ^ k\<close> with \<open>1 \<le> k < 64\<close>.\<close>

definition pow2_ge2 :: "size_t \<Rightarrow> bool" where
  "pow2_ge2 c \<longleftrightarrow> (\<exists>k. 0 < k \<and> k < 64 \<and> c = 2 ^ k)"

section \<open>The SPSC queue\<close>

record 'a SPSCQ =
  spsc_capacity :: size_t
  spsc_items :: "'a list"
  readIdx :: size_t
  writeIdx :: size_t

text \<open>
  The constructor.  The member initialisers allocate the \<open>capacity\<close> slots before the body
  tests the capacity, so a failed allocation is what the caller sees, whatever the capacity.
\<close>

definition SPSCQ_new :: "alloc \<Rightarrow> 'a \<Rightarrow> size_t \<Rightarrow> error + 'a SPSCQ" where
  "SPSCQ_new h t0 capacity =
     (case make_unique h t0 capacity of
        Inl e \<Rightarrow> Inl e
      | Inr items \<Rightarrow>
          if capacity < 2 \<or> popcount capacity \<noteq> 1 then Inl LogicError
          else Inr \<lparr>spsc_capacity = capacity, spsc_items = items, readIdx = 0, writeIdx = 0\<rparr>)"

text \<open>\<^verbatim>\<open>push\<close> (both overloads do the same): the result and the queue after the call.\<close>

definition spsc_push :: "'a SPSCQ \<Rightarrow> 'a \<Rightarrow> bool \<times> 'a SPSCQ" where
  "spsc_push q item =
     (let wIdx = writeIdx q;
          rIdx = readIdx q;
          nextWriteIdx = (wIdx + 1) AND (spsc_capacity q - 1)
      in if nextWriteIdx = rIdx then (False, q)
         else (True, q\<lparr>spsc_items := (spsc_items q)[unat wIdx := item],
                        writeIdx := nextWriteIdx\<rparr>))"

text \<open>
  \<^verbatim>\<open>pop(T& item)\<close>: the result, the new contents of \<open>item\<close> and the queue after the
  call.  The slot is left as it is (a moved-from trivially copyable value).
\<close>

definition spsc_pop :: "'a SPSCQ \<Rightarrow> 'a \<Rightarrow> bool \<times> 'a \<times> 'a SPSCQ" where
  "spsc_pop q item =
     (let rIdx = readIdx q;
          wIdx = writeIdx q
      in if rIdx = wIdx then (False, item, q)
         else (True, spsc_items q ! unat rIdx,
               q\<lparr>readIdx := (rIdx + 1) AND (spsc_capacity q - 1)\<rparr>))"

definition spsc_full :: "'a SPSCQ \<Rightarrow> bool" where
  "spsc_full q \<longleftrightarrow> (writeIdx q + 1) AND (spsc_capacity q - 1) = readIdx q"

definition spsc_empty :: "'a SPSCQ \<Rightarrow> bool" where
  "spsc_empty q \<longleftrightarrow> readIdx q = writeIdx q"

definition spsc_size :: "'a SPSCQ \<Rightarrow> size_t" where
  "spsc_size q = (writeIdx q - readIdx q) AND (spsc_capacity q - 1)"

text \<open>
  A sequential use of a queue: a list of calls, run in order.  Each call leaves one event:
  what \<^verbatim>\<open>push\<close> was given and returned, or what \<^verbatim>\<open>pop\<close> delivered.
\<close>

datatype 'a op = Push 'a | Pop

datatype 'a event = PushOk 'a | PushFull 'a | PopOk 'a | PopEmpty

fun pushed :: "'a event list \<Rightarrow> 'a list" where
  "pushed [] = []"
| "pushed (PushOk v # es) = v # pushed es"
| "pushed (e # es) = pushed es"

fun popped :: "'a event list \<Rightarrow> 'a list" where
  "popped [] = []"
| "popped (PopOk v # es) = v # popped es"
| "popped (e # es) = popped es"

text \<open>The first argument is the caller's variable that \<^verbatim>\<open>pop\<close> writes into.\<close>

fun spsc_run :: "'a \<Rightarrow> 'a SPSCQ \<Rightarrow> 'a op list \<Rightarrow> 'a event list \<times> 'a SPSCQ" where
  "spsc_run out q [] = ([], q)"
| "spsc_run out q (Push v # ops) =
     (case spsc_push q v of (ok, q') \<Rightarrow>
        (case spsc_run out q' ops of (es, q'') \<Rightarrow>
           ((if ok then PushOk v else PushFull v) # es, q'')))"
| "spsc_run out q (Pop # ops) =
     (case spsc_pop q out of (ok, out', q') \<Rightarrow>
        (case spsc_run out' q' ops of (es, q'') \<Rightarrow>
           ((if ok then PopOk out' else PopEmpty) # es, q'')))"

section \<open>The MPSC queue\<close>

record 'a Cell =
  sequence :: size_t
  cell_value :: 'a

record 'a MPSCQ =
  mpsc_capacity :: size_t
  mpsc_mask :: size_t
  buffer :: "'a Cell list"
  head :: size_t
  tail :: size_t

text \<open>
  The constructor: the member initialisers allocate the cells value-initialised, the body
  tests the capacity, and the loop then stores \<open>i\<close> into the sequence of cell \<open>i\<close>.
\<close>

definition MPSCQ_new :: "alloc \<Rightarrow> 'a \<Rightarrow> size_t \<Rightarrow> error + 'a MPSCQ" where
  "MPSCQ_new h t0 capacity =
     (let mask = capacity - 1 in
      case make_unique h \<lparr>sequence = 0, cell_value = t0\<rparr> capacity of
        Inl e \<Rightarrow> Inl e
      | Inr buf \<Rightarrow>
          if capacity < 2 \<or> capacity AND (capacity - 1) \<noteq> 0 then Inl LogicError
          else Inr \<lparr>mpsc_capacity = capacity, mpsc_mask = mask,
                    buffer = fold (\<lambda>i b. b[i := (b ! i)\<lparr>sequence := of_nat i\<rparr>])
                               [0..<unat capacity] buf,
                    head = 0, tail = 0\<rparr>)"

text \<open>
  The claim loop of \<^verbatim>\<open>emplace_impl\<close>, run by one thread at a time: \<open>pos\<close> is the loop
  variable, \<open>diff\<close> the difference of the two \<^verbatim>\<open>intptr_t\<close> casts (two's complement), and
  the compare-and-swap on \<open>head\<close> succeeds when \<open>head = pos\<close> and otherwise reloads
  \<open>pos\<close> (the spurious failures a weak compare-and-swap may have are left out).  The
  source's \<^verbatim>\<open>break\<close> after a successful swap lacks its semicolon; it is read as the
  \<^verbatim>\<open>break\<close> it spells.  The result is \<open>None\<close> when the loop does not return, \<open>Some None\<close>
  for \<^verbatim>\<open>return false\<close>, and \<open>Some (Some (pos, q))\<close> when the loop is left with the cell at
  \<open>pos\<close> claimed.
\<close>

partial_function (option) emplace_loop ::
  "'a MPSCQ \<Rightarrow> size_t \<Rightarrow> (size_t \<times> 'a MPSCQ) option option" where
  "emplace_loop q pos =
     (let cell = buffer q ! unat (pos AND mpsc_mask q);
          seq = sequence cell;
          diff = sint (seq - pos)
      in if diff = 0
         then (if head q = pos then Some (Some (pos, q\<lparr>head := pos + 1\<rparr>))
               else emplace_loop q (head q))
         else if diff < 0 then Some None
         else emplace_loop q (head q))"

declare emplace_loop.simps [code]

definition emplace_impl :: "'a MPSCQ \<Rightarrow> 'a \<Rightarrow> (bool \<times> 'a MPSCQ) option" where
  "emplace_impl q v =
     (case emplace_loop q (head q) of
        None \<Rightarrow> None
      | Some None \<Rightarrow> Some (False, q)
      | Some (Some (pos, q')) \<Rightarrow>
          Some (True, q'\<lparr>buffer := (buffer q')[unat (pos AND mpsc_mask q') :=
                              \<lparr>sequence = pos + 1, cell_value = v\<rparr>]\<rparr>))"

definition pop_impl :: "'a MPSCQ \<Rightarrow> 'a \<Rightarrow> bool \<times> 'a \<times> 'a MPSCQ" where
  "pop_impl q out =
     (let pos = tail q;
          i = unat (pos AND mpsc_mask q);
          cell = buffer q ! i;
          seq = sequence cell;
          diff = sint (seq - (pos + 1))
      in if diff < 0 then (False, out, q)
         else (True, cell_value cell,
               q\<lparr>buffer := (buffer q)[i := cell\<lparr>sequence := pos + mpsc_capacity q\<rparr>],
                  tail := pos + 1\<rparr>))"

definition mpsc_push :: "'a MPSCQ \<Rightarrow> 'a \<Rightarrow> (bool \<times> 'a MPSCQ) option" where
  "mpsc_push q item = emplace_impl q item"

definition mpsc_pop :: "'a MPSCQ \<Rightarrow> 'a \<Rightarrow> bool \<times> 'a \<times> 'a MPSCQ" where
  "mpsc_pop q out = pop_impl q out"

definition mpsc_size :: "'a MPSCQ \<Rightarrow> size_t" where
  "mpsc_size q = head q - tail q"

definition mpsc_empty :: "'a MPSCQ \<Rightarrow> bool" where
  "mpsc_empty q \<longleftrightarrow> mpsc_size q = 0"

definition mpsc_full :: "'a MPSCQ \<Rightarrow> bool" where
  "mpsc_full q \<longleftrightarrow> mpsc_size q \<ge> mpsc_capacity q"

text \<open>A sequential run; \<open>None\<close> when some \<^verbatim>\<open>push\<close> in it does not return.\<close>

fun mpsc_run :: "'a \<Rightarrow> 'a MPSCQ \<Rightarrow> 'a op list \<Rightarrow> ('a event list \<times> 'a MPSCQ) option" where
  "mpsc_run out q [] = Some ([], q)"
| "mpsc_run out q (Push v # ops) =
     (case mpsc_push q v of
        None \<Rightarrow> None
      | Some (ok, q') \<Rightarrow>
          (case mpsc_run out q' ops of
             None \<Rightarrow> None
           | Some (es, q'') \<Rightarrow> Some ((if ok then PushOk v else PushFull v) # es, q'')))"
| "mpsc_run out q (Pop # ops) =
     (case mpsc_pop q out of (ok, out', q') \<Rightarrow>
        (case mpsc_run out' q' ops of
           None \<Rightarrow> None
         | Some (es, q'') \<Rightarrow> Some ((if ok then PopOk out' else PopEmpty) # es, q'')))"

section \<open>The SPMC queue\<close>

record 'a SPMCQEntry =
  data :: 'a
  version :: uint32

record 'a SPMCQ =
  spmc_capacity :: size_t
  spmc_items :: "'a SPMCQEntry list"
  mReadIndex :: size_t
  mWriteIndex :: size_t

text \<open>The constructor: allocation by the member initialisers, then the test of the body.\<close>

definition SPMCQ_new :: "alloc \<Rightarrow> 'a \<Rightarrow> size_t \<Rightarrow> error + 'a SPMCQ" where
  "SPMCQ_new h t0 capacity =
     (case make_unique h \<lparr>data = t0, version = 0\<rparr> capacity of
        Inl e \<Rightarrow> Inl e
      | Inr items \<Rightarrow>
          if capacity < 2 \<or> popcount capacity \<noteq> 1 then Inl LogicError
          else Inr \<lparr>spmc_capacity = capacity, spmc_items = items,
                    mReadIndex = 0, mWriteIndex = 0\<rparr>)"

text \<open>
  The handles hold a reference to the queue, which the operations below take as their
  first argument, a copy of its capacity, and their local cursor and version.
\<close>

record SPMCProducer =
  prod_capacity :: size_t
  lWriteIdx :: size_t
  prod_lVersion :: uint32

record SPMCConsumer =
  cons_capacity :: size_t
  lReadIdx :: size_t
  cons_lVersion :: uint32

definition getProducer :: "'a SPMCQ \<Rightarrow> SPMCProducer" where
  "getProducer q = \<lparr>prod_capacity = spmc_capacity q, lWriteIdx = 0, prod_lVersion = 0\<rparr>"

definition getConsumer :: "'a SPMCQ \<Rightarrow> SPMCConsumer" where
  "getConsumer q = \<lparr>cons_capacity = spmc_capacity q, lReadIdx = 0, cons_lVersion = 0\<rparr>"

text \<open>
  The stores a \<^verbatim>\<open>push\<close> makes to the shared queue, in program order: \<open>mWriteIndex\<close>,
  then the slot, then \<open>mReadIndex\<close>, the cursor that \<^verbatim>\<open>pop\<close> loads.
\<close>

datatype 'a store =
    StoreWriteIndex size_t
  | StoreItem size_t "'a SPMCQEntry"
  | StoreReadIndex size_t

fun apply_store :: "'a store \<Rightarrow> 'a SPMCQ \<Rightarrow> 'a SPMCQ" where
  "apply_store (StoreWriteIndex n) q = q\<lparr>mWriteIndex := n\<rparr>"
| "apply_store (StoreItem i e) q = q\<lparr>spmc_items := (spmc_items q)[unat i := e]\<rparr>"
| "apply_store (StoreReadIndex n) q = q\<lparr>mReadIndex := n\<rparr>"

definition push_stores :: "SPMCProducer \<Rightarrow> 'a \<Rightarrow> 'a store list" where
  "push_stores p item =
     (let nxtWriteIdx_nowrap = lWriteIdx p + 1;
          nxtWriteIdx = nxtWriteIdx_nowrap AND (prod_capacity p - 1)
      in [StoreWriteIndex nxtWriteIdx,
          StoreItem (lWriteIdx p) \<lparr>data = item, version = prod_lVersion p\<rparr>,
          StoreReadIndex nxtWriteIdx])"

text \<open>The queue when the first \<open>n\<close> stores of a \<^verbatim>\<open>push\<close> have been made.\<close>

definition push_upto :: "nat \<Rightarrow> 'a SPMCQ \<Rightarrow> SPMCProducer \<Rightarrow> 'a \<Rightarrow> 'a SPMCQ" where
  "push_upto n q p item = fold apply_store (take n (push_stores p item)) q"

text \<open>\<^verbatim>\<open>push\<close> (both overloads): the result, the handle and the queue after the call.\<close>

definition spmc_push :: "'a SPMCQ \<Rightarrow> SPMCProducer \<Rightarrow> 'a \<Rightarrow> bool \<times> SPMCProducer \<times> 'a SPMCQ" where
  "spmc_push q p item =
     (let nxtWriteIdx_nowrap = lWriteIdx p + 1;
          nxtVersion = prod_lVersion p + (if nxtWriteIdx_nowrap = prod_capacity p then 1 else 0);
          nxtWriteIdx = nxtWriteIdx_nowrap AND (prod_capacity p - 1);
          q' = fold apply_store (push_stores p item) q
      in (True, p\<lparr>lWriteIdx := nxtWriteIdx, prod_lVersion := nxtVersion\<rparr>, q'))"

text \<open>
  \<^verbatim>\<open>pop(T& item)\<close>: the exception, or the result, the new contents of \<open>item\<close> and the
  handle after the call.  The queue is only read.
\<close>

definition spmc_pop :: "'a SPMCQ \<Rightarrow> SPMCConsumer \<Rightarrow> 'a \<Rightarrow> error + bool \<times> 'a \<times> SPMCConsumer" where
  "spmc_pop q c item =
     (if lReadIdx c = mReadIndex q then Inr (False, item, c)
      else
        let val = spmc_items q ! unat (lReadIdx c) in
        if version val \<noteq> cons_lVersion c then Inl (Overlapped (lReadIdx c))
        else
          let nxtReadIdx_nowrap = lReadIdx c + 1;
              nxtVersion = cons_lVersion c + (if nxtReadIdx_nowrap = cons_capacity c then 1 else 0)
          in Inr (True, data val,
                  c\<lparr>lReadIdx := nxtReadIdx_nowrap AND (cons_capacity c - 1),
                    cons_lVersion := nxtVersion\<rparr>))"

definition spmc_full :: "'a SPMCQ \<Rightarrow> bool" where
  "spmc_full q \<longleftrightarrow> (mWriteIndex q + 1) AND (spmc_capacity q - 1) = mReadIndex q"

definition spmc_empty :: "'a SPMCQ \<Rightarrow> bool" where
  "spmc_empty q \<longleftrightarrow> mReadIndex q = mWriteIndex q"

definition spmc_size :: "'a SPMCQ \<Rightarrow> size_t" where
  "spmc_size q = (mWriteIndex q - mReadIndex q) AND (spmc_capacity q - 1)"

text \<open>
  One queue with its producer handle and the consumer handles obtained so far, and the
  calls a program can make on them.  A \<^verbatim>\<open>pop\<close> that throws leaves everything as it was.
\<close>

record 'a spmc_sys =
  queue :: "'a SPMCQ"
  producer :: SPMCProducer
  consumers :: "SPMCConsumer list"

datatype 'a sys_op = SysPush 'a | SysPop nat | SysGetConsumer

datatype 'a sys_event =
    EvPush 'a bool
  | EvPopOk nat 'a
  | EvPopEmpty nat
  | EvOverlapped nat
  | EvGetConsumer nat
  | EvNoHandle

definition sys_new :: "'a SPMCQ \<Rightarrow> 'a spmc_sys" where
  "sys_new q = \<lparr>queue = q, producer = getProducer q, consumers = []\<rparr>"

fun sys_step :: "'a \<Rightarrow> 'a sys_op \<Rightarrow> 'a spmc_sys \<Rightarrow> 'a sys_event \<times> 'a spmc_sys" where
  "sys_step out (SysPush v) s =
     (case spmc_push (queue s) (producer s) v of
        (ok, p', q') \<Rightarrow> (EvPush v ok, s\<lparr>queue := q', producer := p'\<rparr>))"
| "sys_step out (SysPop i) s =
     (if i < length (consumers s) then
        (case spmc_pop (queue s) (consumers s ! i) out of
           Inl e \<Rightarrow> (EvOverlapped i, s)
         | Inr (ok, out', c') \<Rightarrow>
             (if ok then EvPopOk i out' else EvPopEmpty i,
              s\<lparr>consumers := (consumers s)[i := c']\<rparr>))
      else (EvNoHandle, s))"
| "sys_step out SysGetConsumer s =
     (EvGetConsumer (length (consumers s)),
      s\<lparr>consumers := consumers s @ [getConsumer (queue s)]\<rparr>)"

fun sys_run :: "'a \<Rightarrow> 'a spmc_sys \<Rightarrow> 'a sys_op list \<Rightarrow> 'a sys_event list \<times> 'a spmc_sys" where
  "sys_run out s [] = ([], s)"
| "sys_run out s (x # xs) =
     (case sys_step out x s of (e, s') \<Rightarrow>
        (case sys_run out s' xs of (es, s'') \<Rightarrow> (e # es, s'')))"

fun pushes :: "'a sys_event list \<Rightarrow> 'a list" where
  "pushes [] = []"
| "pushes (EvPush v ok # es) = v # pushes es"
| "pushes (e # es) = pushes es"

fun pops :: "nat \<Rightarrow> 'a sys_event list \<Rightarrow> 'a list" where
  "pops i [] = []"
| "pops i (EvPopOk j v # es) = (if j = i then v # pops i es else pops i es)"
| "pops i (e # es) = pops i es"

text \<open>The events that a \<^verbatim>\<open>pop\<close> on handle \<open>i\<close> leaves.\<close>

fun pop_of :: "nat \<Rightarrow> 'a sys_event \<Rightarrow> bool" where
  "pop_of i (EvPopOk j v) = (j = i)"
| "pop_of i (EvPopEmpty j) = (j = i)"
| "pop_of i (EvOverlapped j) = (j = i)"
| "pop_of i e = False"

text \<open>
  Modelled from the spec: \<^verbatim>\<open>SPMCConsumer::respawn\<close>, which the README and the benchmark
  call and \<^verbatim>\<open>spmc_queue.hpp\<close> does not define.  The spec: "resync this consumer's local
  read index and version to the producer's current cursor, abandoning all unread values".
  The cursor is the published \<open>mReadIndex\<close>; the version is read from the producer's
  handle, the only place that holds it.
\<close>

definition respawn :: "'a SPMCQ \<Rightarrow> SPMCProducer \<Rightarrow> SPMCConsumer \<Rightarrow> SPMCConsumer" where
  "respawn q p c = c\<lparr>lReadIdx := mReadIndex q, cons_lVersion := prod_lVersion p\<rparr>"

section \<open>Representation invariants\<close>

text \<open>
  An SPSC queue holding the values \<open>xs\<close>, oldest first: they lie in the ring from the read
  index up to the write index; \<open>r\<close> counts the values popped so far.
\<close>

definition spsc_inv :: "'a list \<Rightarrow> 'a SPSCQ \<Rightarrow> bool" where
  "spsc_inv xs q \<longleftrightarrow>
     pow2_ge2 (spsc_capacity q) \<and>
     length (spsc_items q) = unat (spsc_capacity q) \<and>
     length xs < unat (spsc_capacity q) \<and>
     (\<exists>r. unat (readIdx q) = r mod unat (spsc_capacity q) \<and>
          unat (writeIdx q) = (r + length xs) mod unat (spsc_capacity q) \<and>
          (\<forall>j<length xs. spsc_items q ! ((r + j) mod unat (spsc_capacity q)) = xs ! j))"

text \<open>
  The SPMC queue and its producer after the values \<open>W\<close> have been pushed: the producer
  stands at counter \<open>length W\<close>, both published indices equal its write index, and each of
  the last \<open>capacity\<close> pushes is in its slot with the lap number as version.
\<close>

definition spmc_inv :: "'a list \<Rightarrow> 'a SPMCQ \<Rightarrow> SPMCProducer \<Rightarrow> bool" where
  "spmc_inv W q p \<longleftrightarrow>
     pow2_ge2 (spmc_capacity q) \<and>
     prod_capacity p = spmc_capacity q \<and>
     length (spmc_items q) = unat (spmc_capacity q) \<and>
     unat (lWriteIdx p) = length W mod unat (spmc_capacity q) \<and>
     prod_lVersion p = of_nat (length W div unat (spmc_capacity q)) \<and>
     mReadIndex q = lWriteIdx p \<and>
     mWriteIndex q = lWriteIdx p \<and>
     (\<forall>k<length W. length W \<le> k + unat (spmc_capacity q) \<longrightarrow>
        spmc_items q ! (k mod unat (spmc_capacity q))
          = \<lparr>data = W ! k, version = of_nat (k div unat (spmc_capacity q))\<rparr>)"

text \<open>A consumer handle of a queue of capacity \<open>cap\<close> that stands at counter \<open>r\<close>.\<close>

definition cons_at :: "size_t \<Rightarrow> nat \<Rightarrow> SPMCConsumer \<Rightarrow> bool" where
  "cons_at cap r c \<longleftrightarrow>
     cons_capacity c = cap \<and>
     unat (lReadIdx c) = r mod unat cap \<and>
     cons_lVersion c = of_nat (r div unat cap)"

text \<open>
  Handle number \<open>i\<close> of a system stands at counter \<open>r\<close>; a handle not yet obtained will start
  at counter 0.
\<close>

definition tracks :: "size_t \<Rightarrow> nat \<Rightarrow> nat \<Rightarrow> SPMCConsumer list \<Rightarrow> bool" where
  "tracks cap r i cs \<longleftrightarrow> (if i < length cs then cons_at cap r (cs ! i) else r = 0)"

text \<open>
  An MPSC queue holding the values \<open>xs\<close>, oldest first; \<open>t\<close> counts the values popped so far.
  The cells of the pending values carry their position plus one, the free cells the
  position of the push that will fill them.
\<close>

definition mpsc_inv :: "'a list \<Rightarrow> 'a MPSCQ \<Rightarrow> bool" where
  "mpsc_inv xs q \<longleftrightarrow>
     pow2_ge2 (mpsc_capacity q) \<and>
     mpsc_mask q = mpsc_capacity q - 1 \<and>
     length (buffer q) = unat (mpsc_capacity q) \<and>
     length xs \<le> unat (mpsc_capacity q) \<and>
     (\<exists>t. tail q = of_nat t \<and> head q = of_nat (t + length xs) \<and>
          (\<forall>j<length xs. buffer q ! ((t + j) mod unat (mpsc_capacity q))
                            = \<lparr>sequence = of_nat (t + j + 1), cell_value = xs ! j\<rparr>) \<and>
          (\<forall>j. length xs \<le> j \<and> j < unat (mpsc_capacity q) \<longrightarrow>
                sequence (buffer q ! ((t + j) mod unat (mpsc_capacity q))) = of_nat (t + j)))"

text \<open>A consumer handle of a queue of capacity \<open>cap\<close> whose read index is inside the buffer.\<close>

definition cons_wf :: "size_t \<Rightarrow> SPMCConsumer \<Rightarrow> bool" where
  "cons_wf cap c \<longleftrightarrow> cons_capacity c = cap \<and> unat (lReadIdx c) < unat cap"

section \<open>Bit masks and ring arithmetic\<close>

lemma and_pow2_minus1: "(x::'a::len word) AND (2 ^ k - 1) = take_bit k x"
  by (simp add: take_bit_eq_mask mask_eq_exp_minus_1)

lemma unat_and_pow2: "unat ((x::'a::len word) AND (2 ^ k - 1)) = unat x mod 2 ^ k"
proof -
  have "unat (take_bit k x) = take_bit k (unat x)" by (rule unsigned_take_bit_eq)
  then show ?thesis by (simp only: and_pow2_minus1 take_bit_eq_mod)
qed

lemma uint_and_pow2: "uint ((x::'a::len word) AND (2 ^ k - 1)) = uint x mod 2 ^ k"
proof -
  have "uint (take_bit k x) = take_bit k (uint x)" by (rule unsigned_take_bit_eq)
  then show ?thesis by (simp only: and_pow2_minus1 take_bit_eq_mod)
qed

lemma unat_add_mask:
  assumes "k \<le> LENGTH('a)"
  shows "unat (((a::'a::len word) + b) AND (2 ^ k - 1)) = (unat a + unat b) mod 2 ^ k"
proof -
  have d: "(2::nat) ^ k dvd 2 ^ LENGTH('a)" using assms by (simp add: le_imp_power_dvd)
  have "unat ((a + b) AND (2 ^ k - 1)) = ((unat a + unat b) mod 2 ^ LENGTH('a)) mod 2 ^ k"
    by (simp only: unat_and_pow2 unat_word_ariths)
  also have "\<dots> = (unat a + unat b) mod 2 ^ k" using d by (rule mod_mod_cancel)
  finally show ?thesis .
qed

lemma uint_sub_mask:
  assumes "k \<le> LENGTH('a)"
  shows "uint (((a::'a::len word) - b) AND (2 ^ k - 1)) = (uint a - uint b) mod 2 ^ k"
proof -
  have d: "(2::int) ^ k dvd 2 ^ LENGTH('a)" using assms by (simp add: le_imp_power_dvd)
  have "uint ((a - b) AND (2 ^ k - 1)) = ((uint a - uint b) mod 2 ^ LENGTH('a)) mod 2 ^ k"
    by (simp only: uint_and_pow2 uint_word_ariths)
  also have "\<dots> = (uint a - uint b) mod 2 ^ k" using d by (rule mod_mod_cancel)
  finally show ?thesis .
qed

text \<open>The masked distance of two ring indices that stand for the counters \<open>r + n\<close> and \<open>r\<close>.\<close>

lemma unat_sub_mask_ring:
  assumes k: "k \<le> LENGTH('a)"
    and a: "unat (a::'a::len word) = (r + n) mod 2 ^ k"
    and b: "unat b = r mod 2 ^ k"
  shows "unat ((a - b) AND (2 ^ k - 1)) = n mod 2 ^ k"
proof -
  have ua: "uint a = int (r + n) mod 2 ^ k" using a by (simp add: uint_nat zmod_int)
  have ub: "uint b = int r mod 2 ^ k" using b by (simp add: uint_nat zmod_int)
  have "uint ((a - b) AND (2 ^ k - 1)) = (int (r + n) mod 2 ^ k - int r mod 2 ^ k) mod 2 ^ k"
    by (simp only: uint_sub_mask [OF k] ua ub)
  also have "\<dots> = (int (r + n) - int r) mod 2 ^ k" by (rule mod_diff_eq)
  also have "\<dots> = int (n mod 2 ^ k)" by (simp add: zmod_int)
  finally have "int (unat ((a - b) AND (2 ^ k - 1))) = int (n mod 2 ^ k)" by (simp only: uint_nat)
  then show ?thesis by (simp only: of_nat_eq_iff)
qed

text \<open>Two counters less than a lap apart that share a slot are the same counter.\<close>

lemma mod_inj_window:
  fixes C :: nat
  assumes "i mod C = j mod C" "i \<le> j" "j < i + C"
  shows "i = j"
proof -
  have "(j - i) mod C = 0" using assms(1,2) by (metis mod_eq_dvd_iff_nat dvd_eq_mod_eq_0)
  moreover have "j - i < C" using assms by simp
  ultimately show ?thesis using assms(2) by simp
qed

lemma mod_add_neq:
  fixes C :: nat
  assumes "0 < n" "n < C"
  shows "w mod C \<noteq> (w + n) mod C"
proof
  assume "w mod C = (w + n) mod C"
  from mod_inj_window [OF this] assms show False by simp
qed

lemma unat_pow2_len: "k < LENGTH('a) \<Longrightarrow> unat ((2::'a::len word) ^ k) = 2 ^ k"
  by (simp add: of_nat_inverse)

lemma unat_pow2: "k < 64 \<Longrightarrow> unat ((2::size_t) ^ k) = 2 ^ k"
  using unat_pow2_len [where 'a = 64] by simp

section \<open>The capacity tests\<close>

lemma filter_eq_upt: "k < n \<Longrightarrow> filter (\<lambda>i. i = k) [0..<n] = [k]"
  by (induction n) (auto simp: less_Suc_eq)

lemma length_filter_one:
  assumes "length (filter P xs) = Suc 0"
  shows "\<exists>k\<in>set xs. \<forall>i\<in>set xs. P i \<longleftrightarrow> i = k"
proof -
  from assms obtain k where k: "filter P xs = [k]" by (cases "filter P xs") auto
  then have "set (filter P xs) = {k}" by simp
  then have "\<forall>i\<in>set xs. P i \<longleftrightarrow> i = k" by auto
  moreover have "k \<in> set (filter P xs)" using k by simp
  then have "k \<in> set xs" by simp
  ultimately show ?thesis by blast
qed

lemma popcount_one_iff: "popcount c = 1 \<longleftrightarrow> (\<exists>k<64. c = 2 ^ k)"
proof
  assume "popcount c = 1"
  then obtain k where k: "k < 64" "\<forall>i<64. bit c i \<longleftrightarrow> i = k"
    using length_filter_one [of "bit c" "[0..<64]"] by (auto simp: popcount_def)
  have "c = 2 ^ k"
  proof (rule bit_eqI)
    fix n assume "possible_bit TYPE(64 word) n"
    then have "n < 64" by (simp add: possible_bit_def)
    then show "bit c n = bit ((2::64 word) ^ k) n" using k by (simp add: bit_exp_iff)
  qed
  then show "\<exists>k<64. c = 2 ^ k" using k by blast
next
  assume "\<exists>k<64. c = 2 ^ k"
  then obtain k where k: "k < 64" "c = 2 ^ k" by blast
  have "filter (bit c) [0..<64] = filter (\<lambda>i. i = k) [0..<64]"
    by (rule filter_cong) (auto simp: k bit_exp_iff)
  also have "\<dots> = [k]" using k(1) by (simp add: filter_eq_upt)
  finally show "popcount c = 1" by (simp add: popcount_def)
qed

lemma is_pow2_iff: "is_pow2 c \<longleftrightarrow> (\<exists>k<64. c = 2 ^ k)"
  by (auto simp: is_pow2_def)

lemma pow2_less_2_iff: "k < 64 \<Longrightarrow> ((2::size_t) ^ k < 2) = (k = 0)"
proof -
  assume k: "k < 64"
  have "((2::size_t) ^ k < 2) = (unat ((2::size_t) ^ k) < unat (2::size_t))"
    by (simp add: word_less_nat_alt)
  also have "\<dots> = ((2::nat) ^ k < 2)" using k by (simp add: unat_pow2)
  also have "\<dots> = (k = 0)" by (cases k) auto
  finally show ?thesis .
qed

lemma pow2_ge2_iff: "pow2_ge2 c \<longleftrightarrow> \<not> (c < 2 \<or> \<not> is_pow2 c)"
  unfolding pow2_ge2_def is_pow2_iff using pow2_less_2_iff by (metis not_gr_zero)

lemma bitset_test_iff: "(c < 2 \<or> popcount c \<noteq> 1) \<longleftrightarrow> \<not> pow2_ge2 c"
  unfolding pow2_ge2_iff is_pow2_iff popcount_one_iff by simp

text \<open>\<open>n AND (n - 1)\<close> clears the lowest set bit of \<open>n\<close>; it is 0 only for powers of two.\<close>

lemma nat_and_pred_pow2:
  fixes n :: nat
  shows "0 < n \<Longrightarrow> n AND (n - 1) = 0 \<Longrightarrow> \<exists>k. n = 2 ^ k"
proof (induction n rule: less_induct)
  case (less n)
  show ?case
  proof (cases "even n")
    case True
    then obtain m where n: "n = 2 * m" ..
    with less.prems have m: "0 < m" by simp
    have p: "n - 1 = 2 * (m - 1) + 1" using m n by simp
    have "n AND (n - 1) = 2 * (m AND (m - 1))"
      unfolding p unfolding n by (subst and_nat_rec) simp
    with less.prems have "m AND (m - 1) = 0" by simp
    moreover have "m < n" using m n by simp
    ultimately obtain k where "m = 2 ^ k" using less.IH m by blast
    then have "n = 2 ^ Suc k" using n by simp
    then show ?thesis by blast
  next
    case False
    then obtain m where n: "n = 2 * m + 1" by (auto elim: oddE)
    have "n AND (n - 1) = 2 * m"
      unfolding n by (subst and_nat_rec) simp
    with less.prems have "m = 0" by simp
    then have "n = 2 ^ 0" using n by simp
    then show ?thesis by blast
  qed
qed

lemma word_and_pred_pow2:
  fixes c :: "'a::len word"
  assumes "c \<noteq> 0" "c AND (c - 1) = 0"
  shows "\<exists>k<LENGTH('a). c = 2 ^ k"
proof -
  have pos: "0 < unat c" using assms(1) by (simp add: unat_gt_0)
  have "unat (c AND (c - 1)) = unat c AND (unat c - 1)"
    using assms(1) by (simp add: unsigned_and_eq unat_minus_one)
  then have "unat c AND (unat c - 1) = 0" using assms(2) by simp
  then obtain k where k: "unat c = 2 ^ k" using nat_and_pred_pow2 pos by blast
  have "unat c < 2 ^ LENGTH('a)" by simp
  then have kl: "k < LENGTH('a)" unfolding k by simp
  have "c = of_nat (unat c)" by simp
  also have "\<dots> = 2 ^ k" unfolding k by simp
  finally show ?thesis using kl by blast
qed

lemma pow2_and_pred: "(2 ^ k :: 'a::len word) AND (2 ^ k - 1) = 0"
  by (rule bit_eqI)
    (auto simp: bit_and_iff bit_exp_iff mask_eq_exp_minus_1 [symmetric] bit_mask_iff)

lemma and_test_iff: "((c::size_t) < 2 \<or> c AND (c - 1) \<noteq> 0) \<longleftrightarrow> \<not> pow2_ge2 c"
proof -
  have "c AND (c - 1) = 0 \<and> \<not> c < 2 \<longleftrightarrow> (\<exists>k<64. c = 2 ^ k) \<and> \<not> c < 2"
  proof (cases "c = 0")
    case True
    then show ?thesis by simp
  next
    case False
    then show ?thesis
      using word_and_pred_pow2 [of c] pow2_and_pred [where 'a = 64] by auto
  qed
  then show ?thesis unfolding pow2_ge2_iff is_pow2_iff by blast
qed

lemma fold_seq_init:
  "m \<le> length b \<Longrightarrow>
   length (fold (\<lambda>i b. b[i := (b ! i)\<lparr>sequence := of_nat i\<rparr>]) [0..<m] b) = length b \<and>
   (\<forall>i<length b. fold (\<lambda>i b. b[i := (b ! i)\<lparr>sequence := of_nat i\<rparr>]) [0..<m] b ! i
       = (if i < m then (b ! i)\<lparr>sequence := of_nat i\<rparr> else b ! i))"
proof (induction m)
  case 0
  then show ?case by simp
next
  case (Suc m)
  then show ?case by (auto simp: nth_list_update less_Suc_eq)
qed

text \<open>
  Claim C9 says that construction fails with the logic-error fault exactly when the capacity
  is less than 2 or not a power of two, and succeeds otherwise, for every capacity.  The
  constructors allocate before they test.  With 4-byte slots (16 and 128 bytes for the MPSC
  and SPMC slots) and 4096 bytes to give: capacity \<open>2^64 - 1\<close> is not a power of two and the
  fault is the allocation's, not the logic error; capacity \<open>2^63\<close> is a power of two and
  construction fails.
\<close>

theorem C9_counterexample:
  "\<not> is_pow2 18446744073709551615 \<and>
   SPSCQ_new \<lparr>elem_size = 4, mem_free = 4096\<rparr> (0::int) 18446744073709551615 = Inl BadAlloc \<and>
   MPSCQ_new \<lparr>elem_size = 16, mem_free = 4096\<rparr> (0::int) 18446744073709551615 = Inl BadAlloc \<and>
   SPMCQ_new \<lparr>elem_size = 128, mem_free = 4096\<rparr> (0::int) 18446744073709551615 = Inl BadAlloc \<and>
   is_pow2 9223372036854775808 \<and> \<not> (9223372036854775808::size_t) < 2 \<and>
   SPSCQ_new \<lparr>elem_size = 4, mem_free = 4096\<rparr> (0::int) 9223372036854775808 = Inl BadAlloc \<and>
   MPSCQ_new \<lparr>elem_size = 16, mem_free = 4096\<rparr> (0::int) 9223372036854775808 = Inl BadAlloc \<and>
   SPMCQ_new \<lparr>elem_size = 128, mem_free = 4096\<rparr> (0::int) 9223372036854775808 = Inl BadAlloc"
  by code_simp

text \<open>
  Claim C9, amended.  For every capacity whose \<open>capacity\<close> slots can be allocated, each of the
  three constructors fails with the logic-error fault exactly when the capacity is less than
  2 or not a power of two, and otherwise returns a queue of that capacity whose backing
  storage has exactly \<open>capacity\<close> slots.  For a capacity whose slots cannot be allocated no
  constructor returns a queue.  The theorem states what the constructors do there: the
  allocation, made by the member initialisers, fails before the body tests the capacity,
  so the fault is the allocation's and never the logic error.
\<close>

theorem C9_capacity_validation:
  "(SPSCQ_new h t0 c = Inl LogicError \<longleftrightarrow> can_allocate h c \<and> (c < 2 \<or> \<not> is_pow2 c)) \<and>
   (MPSCQ_new h t0 c = Inl LogicError \<longleftrightarrow> can_allocate h c \<and> (c < 2 \<or> \<not> is_pow2 c)) \<and>
   (SPMCQ_new h t0 c = Inl LogicError \<longleftrightarrow> can_allocate h c \<and> (c < 2 \<or> \<not> is_pow2 c)) \<and>
   (SPSCQ_new h t0 c = Inl BadAlloc \<longleftrightarrow> \<not> can_allocate h c) \<and>
   (MPSCQ_new h t0 c = Inl BadAlloc \<longleftrightarrow> \<not> can_allocate h c) \<and>
   (SPMCQ_new h t0 c = Inl BadAlloc \<longleftrightarrow> \<not> can_allocate h c) \<and>
   (can_allocate h c \<and> \<not> (c < 2 \<or> \<not> is_pow2 c) \<longrightarrow>
      (\<exists>q. SPSCQ_new h t0 c = Inr q \<and> spsc_capacity q = c \<and> length (spsc_items q) = unat c) \<and>
      (\<exists>q. MPSCQ_new h t0 c = Inr q \<and> mpsc_capacity q = c \<and> length (buffer q) = unat c) \<and>
      (\<exists>q. SPMCQ_new h t0 c = Inr q \<and> spmc_capacity q = c \<and> length (spmc_items q) = unat c))"
proof -
  have a: "(c < 2 \<or> popcount c \<noteq> 1) \<longleftrightarrow> (c < 2 \<or> \<not> is_pow2 c)"
    using bitset_test_iff pow2_ge2_iff by blast
  have b: "(c < 2 \<or> c AND (c - 1) \<noteq> 0) \<longleftrightarrow> (c < 2 \<or> \<not> is_pow2 c)"
    using and_test_iff pow2_ge2_iff by blast
  have 1: "SPSCQ_new h t0 c = Inl LogicError \<longleftrightarrow> can_allocate h c \<and> (c < 2 \<or> \<not> is_pow2 c)"
    unfolding a [symmetric] by (simp add: SPSCQ_new_def make_unique_def)
  have 2: "MPSCQ_new h t0 c = Inl LogicError \<longleftrightarrow> can_allocate h c \<and> (c < 2 \<or> \<not> is_pow2 c)"
    unfolding b [symmetric] by (simp add: MPSCQ_new_def make_unique_def Let_def)
  have 3: "SPMCQ_new h t0 c = Inl LogicError \<longleftrightarrow> can_allocate h c \<and> (c < 2 \<or> \<not> is_pow2 c)"
    unfolding a [symmetric] by (simp add: SPMCQ_new_def make_unique_def)
  have 4: "SPSCQ_new h t0 c = Inl BadAlloc \<longleftrightarrow> \<not> can_allocate h c"
    by (simp add: SPSCQ_new_def make_unique_def)
  have 5: "MPSCQ_new h t0 c = Inl BadAlloc \<longleftrightarrow> \<not> can_allocate h c"
    by (simp add: MPSCQ_new_def make_unique_def Let_def)
  have 6: "SPMCQ_new h t0 c = Inl BadAlloc \<longleftrightarrow> \<not> can_allocate h c"
    by (simp add: SPMCQ_new_def make_unique_def)
  have 7: "\<exists>q. SPSCQ_new h t0 c = Inr q \<and> spsc_capacity q = c \<and> length (spsc_items q) = unat c"
    if "can_allocate h c" "\<not> (c < 2 \<or> \<not> is_pow2 c)"
    using that unfolding a [symmetric] by (simp add: SPSCQ_new_def make_unique_def)
  have 8: "\<exists>q. MPSCQ_new h t0 c = Inr q \<and> mpsc_capacity q = c \<and> length (buffer q) = unat c"
    if "can_allocate h c" "\<not> (c < 2 \<or> \<not> is_pow2 c)"
    using that unfolding b [symmetric]
    by (simp add: MPSCQ_new_def make_unique_def Let_def fold_seq_init)
  have 9: "\<exists>q. SPMCQ_new h t0 c = Inr q \<and> spmc_capacity q = c \<and> length (spmc_items q) = unat c"
    if "can_allocate h c" "\<not> (c < 2 \<or> \<not> is_pow2 c)"
    using that unfolding a [symmetric] by (simp add: SPMCQ_new_def make_unique_def)
  from 7 8 9 have 10: "can_allocate h c \<and> \<not> (c < 2 \<or> \<not> is_pow2 c) \<longrightarrow>
      (\<exists>q. SPSCQ_new h t0 c = Inr q \<and> spsc_capacity q = c \<and> length (spsc_items q) = unat c) \<and>
      (\<exists>q. MPSCQ_new h t0 c = Inr q \<and> mpsc_capacity q = c \<and> length (buffer q) = unat c) \<and>
      (\<exists>q. SPMCQ_new h t0 c = Inr q \<and> spmc_capacity q = c \<and> length (spmc_items q) = unat c)"
    by blast
  show ?thesis
    by (rule conjI [OF 1 conjI [OF 2 conjI [OF 3 conjI [OF 4 conjI [OF 5 conjI [OF 6 10]]]]]])
qed

theorem C9_capacity_validation_witness:
  "SPSCQ_new \<lparr>elem_size = 4, mem_free = 4096\<rparr> (0::int) 3 = Inl LogicError \<and>
   MPSCQ_new \<lparr>elem_size = 4, mem_free = 4096\<rparr> (0::int) 3 = Inl LogicError \<and>
   SPMCQ_new \<lparr>elem_size = 4, mem_free = 4096\<rparr> (0::int) 3 = Inl LogicError \<and>
   (\<exists>q. SPSCQ_new \<lparr>elem_size = 4, mem_free = 4096\<rparr> (0::int) 4 = Inr q \<and>
        spsc_capacity q = 4 \<and> length (spsc_items q) = 4) \<and>
   (\<exists>q. MPSCQ_new \<lparr>elem_size = 4, mem_free = 4096\<rparr> (0::int) 4 = Inr q \<and>
        mpsc_capacity q = 4 \<and> length (buffer q) = 4) \<and>
   (\<exists>q. SPMCQ_new \<lparr>elem_size = 4, mem_free = 4096\<rparr> (0::int) 4 = Inr q \<and>
        spmc_capacity q = 4 \<and> length (spmc_items q) = 4) \<and>
   SPSCQ_new \<lparr>elem_size = 4, mem_free = 4096\<rparr> (0::int) 2048 = Inl BadAlloc \<and>
   MPSCQ_new \<lparr>elem_size = 4, mem_free = 4096\<rparr> (0::int) 2048 = Inl BadAlloc \<and>
   SPMCQ_new \<lparr>elem_size = 4, mem_free = 4096\<rparr> (0::int) 2048 = Inl BadAlloc"
proof -
  let ?h = "\<lparr>elem_size = 4, mem_free = 4096\<rparr>"
  have a3: "can_allocate ?h 3" and a4: "can_allocate ?h 4" and a5: "\<not> can_allocate ?h 2048"
    by code_simp+
  have p3: "\<not> is_pow2 3" by code_simp
  have p4: "\<not> ((4::size_t) < 2 \<or> \<not> is_pow2 4)" by code_simp
  show ?thesis
    using C9_capacity_validation [of ?h "0::int" 3] C9_capacity_validation [of ?h "0::int" 4]
      C9_capacity_validation [of ?h "0::int" 2048] a3 a4 a5 p3 p4
    by simp
qed

section \<open>SPSC: the ring holds a FIFO list\<close>

lemma pow2_ge2_D:
  assumes "pow2_ge2 c"
  obtains k where "0 < k" "k < 64" "c = 2 ^ k" "unat c = 2 ^ k"
  using assms unat_pow2 unfolding pow2_ge2_def by blast

lemma pow2_ge2_ge2: "pow2_ge2 c \<Longrightarrow> 2 \<le> unat c"
proof -
  assume "pow2_ge2 c"
  then obtain k where k: "0 < k" "unat c = 2 ^ k" by (rule pow2_ge2_D)
  have "(2::nat) ^ 1 \<le> 2 ^ k" using k(1) by (intro power_increasing) simp_all
  then show ?thesis using k(2) by simp
qed

lemma idx_next: "pow2_ge2 c \<Longrightarrow> unat (((x::size_t) + 1) AND (c - 1)) = (unat x + 1) mod unat c"
proof (erule pow2_ge2_D)
  fix k assume k: "k < 64" "c = 2 ^ k" "unat c = 2 ^ k"
  have "k \<le> LENGTH(64)" using k(1) by simp
  from unat_add_mask [OF this, of x 1]
  have "unat ((x + 1) AND (2 ^ k - 1)) = (unat x + 1) mod 2 ^ k" by simp
  then show ?thesis unfolding k(3) unfolding k(2) .
qed

lemma idx_dist:
  assumes "pow2_ge2 c" "unat (a::size_t) = (r + n) mod unat c" "unat b = r mod unat c"
  shows "unat ((a - b) AND (c - 1)) = n mod unat c"
proof (rule pow2_ge2_D [OF assms(1)])
  fix k assume k: "k < 64" "c = 2 ^ k" "unat c = 2 ^ k"
  have "k \<le> LENGTH(64)" using k(1) by simp
  from unat_sub_mask_ring [OF this, of a r n b] assms(2,3) [unfolded k(3)]
  have "unat ((a - b) AND (2 ^ k - 1)) = n mod 2 ^ k" .
  then show ?thesis unfolding k(3) unfolding k(2) .
qed

lemma spsc_inv_size: "spsc_inv xs q \<Longrightarrow> unat (spsc_size q) = length xs"
  unfolding spsc_inv_def spsc_size_def using idx_dist by fastforce

lemma spsc_inv_full:
  assumes "spsc_inv xs q"
  shows "spsc_full q \<longleftrightarrow> Suc (length xs) = unat (spsc_capacity q)"
proof -
  let ?C = "unat (spsc_capacity q)"
  from assms obtain r where c: "pow2_ge2 (spsc_capacity q)" and n: "length xs < ?C"
    and r: "unat (readIdx q) = r mod ?C" and w: "unat (writeIdx q) = (r + length xs) mod ?C"
    unfolding spsc_inv_def by blast
  have "spsc_full q \<longleftrightarrow> unat ((writeIdx q + 1) AND (spsc_capacity q - 1)) = unat (readIdx q)"
    unfolding spsc_full_def by (simp only: word_unat_eq_iff)
  also have "\<dots> \<longleftrightarrow> (r + length xs + 1) mod ?C = r mod ?C"
    by (simp only: idx_next [OF c] r w mod_simps) 
  also have "\<dots> \<longleftrightarrow> Suc (length xs) = ?C"
  proof
    assume e: "(r + length xs + 1) mod ?C = r mod ?C"
    show "Suc (length xs) = ?C"
    proof (rule ccontr)
      assume "Suc (length xs) \<noteq> ?C"
      with n have "r + length xs + 1 < r + ?C" by simp
      with mod_inj_window [OF e [symmetric]] show False by simp
    qed
  next
    assume "Suc (length xs) = ?C"
    then have "r + length xs + 1 = r + ?C" by simp
    then show "(r + length xs + 1) mod ?C = r mod ?C" by (simp only: mod_add_self2)
  qed
  finally show ?thesis .
qed


lemma spsc_inv_new:
  assumes "SPSCQ_new h t0 c = Inr q"
  shows "spsc_inv [] q" and "spsc_capacity q = c"
proof -
  from assms have ok: "pow2_ge2 c"
    and q: "q = \<lparr>spsc_capacity = c, spsc_items = replicate (unat c) t0, readIdx = 0, writeIdx = 0\<rparr>"
    using bitset_test_iff [of c] by (auto simp: SPSCQ_new_def make_unique_def split: if_splits)
  show "spsc_capacity q = c" by (simp add: q)
  have "0 < unat c" using pow2_ge2_ge2 [OF ok] by simp
  then show "spsc_inv [] q" unfolding spsc_inv_def using ok
    by (auto simp: q intro: exI [of _ 0])
qed

lemma spsc_push_inv:
  assumes "spsc_inv xs q"
  shows "if Suc (length xs) = unat (spsc_capacity q) then spsc_push q v = (False, q)
         else (\<exists>q'. spsc_push q v = (True, q') \<and> spsc_inv (xs @ [v]) q' \<and>
                    spsc_capacity q' = spsc_capacity q)"
proof -
  let ?C = "unat (spsc_capacity q)"
  let ?n = "length xs"
  from assms obtain r where c: "pow2_ge2 (spsc_capacity q)" and n: "?n < ?C"
    and len: "length (spsc_items q) = ?C"
    and r: "unat (readIdx q) = r mod ?C" and w: "unat (writeIdx q) = (r + ?n) mod ?C"
    and el: "\<forall>j<?n. spsc_items q ! ((r + j) mod ?C) = xs ! j"
    unfolding spsc_inv_def by blast
  have push: "spsc_push q v = (if spsc_full q then (False, q)
       else (True, q\<lparr>spsc_items := (spsc_items q)[unat (writeIdx q) := v],
                      writeIdx := (writeIdx q + 1) AND (spsc_capacity q - 1)\<rparr>))"
    by (simp add: spsc_push_def spsc_full_def Let_def)
  show ?thesis
  proof (cases "Suc ?n = ?C")
    case True
    then show ?thesis using push spsc_inv_full [OF assms] by simp
  next
    case False
    let ?q' = "q\<lparr>spsc_items := (spsc_items q)[unat (writeIdx q) := v],
                  writeIdx := (writeIdx q + 1) AND (spsc_capacity q - 1)\<rparr>"
    have Cpos: "0 < ?C" using n by simp
    have w': "unat (writeIdx ?q') = (r + length (xs @ [v])) mod ?C"
      by (simp add: idx_next [OF c] w mod_simps)
    have el': "spsc_items ?q' ! ((r + j) mod ?C) = (xs @ [v]) ! j" if j: "j < length (xs @ [v])" for j
    proof (cases "j = ?n")
      case True
      have "(r + ?n) mod ?C < length (spsc_items q)" using len Cpos by simp
      then show ?thesis using True by (simp add: w)
    next
      case False
      with j have jn: "j < ?n" by simp
      have "(r + j) mod ?C \<noteq> (r + ?n) mod ?C"
      proof
        assume "(r + j) mod ?C = (r + ?n) mod ?C"
        from mod_inj_window [OF this] jn n show False by simp
      qed
      then show ?thesis using jn el by (simp add: w nth_append)
    qed
    have "spsc_inv (xs @ [v]) ?q'"
      unfolding spsc_inv_def
    proof (intro conjI exI [of _ r])
      show "pow2_ge2 (spsc_capacity ?q')" using c by simp
      show "length (spsc_items ?q') = unat (spsc_capacity ?q')" using len by simp
      show "length (xs @ [v]) < unat (spsc_capacity ?q')" using n False by simp
      show "unat (readIdx ?q') = r mod unat (spsc_capacity ?q')" using r by simp
      show "unat (writeIdx ?q') = (r + length (xs @ [v])) mod unat (spsc_capacity ?q')"
        using w' by simp
      show "\<forall>j<length (xs @ [v]).
              spsc_items ?q' ! ((r + j) mod unat (spsc_capacity ?q')) = (xs @ [v]) ! j"
        using el' by simp
    qed
    then show ?thesis using False push spsc_inv_full [OF assms] by simp
  qed
qed

lemma spsc_pop_inv:
  assumes "spsc_inv xs q"
  shows "case xs of [] \<Rightarrow> spsc_pop q out = (False, out, q)
         | x # xs' \<Rightarrow> (\<exists>q'. spsc_pop q out = (True, x, q') \<and> spsc_inv xs' q' \<and>
                            spsc_capacity q' = spsc_capacity q)"
proof -
  let ?C = "unat (spsc_capacity q)"
  let ?n = "length xs"
  from assms obtain r where c: "pow2_ge2 (spsc_capacity q)" and n: "?n < ?C"
    and len: "length (spsc_items q) = ?C"
    and r: "unat (readIdx q) = r mod ?C" and w: "unat (writeIdx q) = (r + ?n) mod ?C"
    and el: "\<forall>j<?n. spsc_items q ! ((r + j) mod ?C) = xs ! j"
    unfolding spsc_inv_def by blast
  have emp: "readIdx q = writeIdx q \<longleftrightarrow> xs = []"
  proof -
    have "readIdx q = writeIdx q \<longleftrightarrow> r mod ?C = (r + ?n) mod ?C"
      by (simp only: word_unat_eq_iff r w)
    also have "\<dots> \<longleftrightarrow> ?n = 0"
    proof
      assume "r mod ?C = (r + ?n) mod ?C"
      from mod_inj_window [OF this] n show "?n = 0" by simp
    qed simp
    finally show ?thesis by simp
  qed
  show ?thesis
  proof (cases xs)
    case Nil
    then show ?thesis using emp by (simp add: spsc_pop_def)
  next
    case (Cons x xs')
    let ?q' = "q\<lparr>readIdx := (readIdx q + 1) AND (spsc_capacity q - 1)\<rparr>"
    have ne: "readIdx q \<noteq> writeIdx q" using emp Cons by simp
    have "spsc_items q ! (r mod ?C) = x" using el Cons by force
    then have pop: "spsc_pop q out = (True, x, ?q')"
      using ne by (simp add: spsc_pop_def Let_def r)
    have "spsc_inv xs' ?q'"
      unfolding spsc_inv_def
    proof (intro conjI exI [of _ "Suc r"])
      show "pow2_ge2 (spsc_capacity ?q')" using c by simp
      show "length (spsc_items ?q') = unat (spsc_capacity ?q')" using len by simp
      show "length xs' < unat (spsc_capacity ?q')" using n Cons by simp
      show "unat (readIdx ?q') = Suc r mod unat (spsc_capacity ?q')"
        by (simp add: idx_next [OF c] r mod_simps)
      show "unat (writeIdx ?q') = (Suc r + length xs') mod unat (spsc_capacity ?q')"
        using w Cons by simp
      show "\<forall>j<length xs'. spsc_items ?q' ! ((Suc r + j) mod unat (spsc_capacity ?q')) = xs' ! j"
      proof (intro allI impI)
        fix j assume "j < length xs'"
        then have "Suc j < ?n" using Cons by simp
        with el have "spsc_items q ! ((r + Suc j) mod ?C) = xs ! Suc j" by blast
        then show "spsc_items ?q' ! ((Suc r + j) mod unat (spsc_capacity ?q')) = xs' ! j"
          using Cons by simp
      qed
    qed
    then show ?thesis using pop Cons by simp
  qed
qed

lemma spsc_run_inv:
  "spsc_inv xs q \<Longrightarrow> spsc_run out q ops = (es, q') \<Longrightarrow>
   \<exists>ys. spsc_inv ys q' \<and> xs @ pushed es = popped es @ ys \<and>
        spsc_capacity q' = spsc_capacity q"
proof (induction ops arbitrary: xs q out es)
  case Nil
  then show ?case by auto
next
  case (Cons a ops)
  show ?case
  proof (cases a)
    case (Push v)
    show ?thesis
    proof (cases "Suc (length xs) = unat (spsc_capacity q)")
      case True
      with spsc_push_inv [OF Cons.prems(1), of v] have p: "spsc_push q v = (False, q)" by simp
      obtain es1 where r: "spsc_run out q ops = (es1, q')" and e: "es = PushFull v # es1"
        using Cons.prems(2) Push p by (auto split: prod.splits)
      from Cons.IH [OF Cons.prems(1) r] show ?thesis using e by simp
    next
      case False
      with spsc_push_inv [OF Cons.prems(1), of v] obtain q1
        where p: "spsc_push q v = (True, q1)" and i: "spsc_inv (xs @ [v]) q1"
          and c: "spsc_capacity q1 = spsc_capacity q" by auto
      obtain es1 where r: "spsc_run out q1 ops = (es1, q')" and e: "es = PushOk v # es1"
        using Cons.prems(2) Push p by (auto split: prod.splits)
      from Cons.IH [OF i r] show ?thesis using e c by simp
    qed
  next
    case Pop
    show ?thesis
    proof (cases xs)
      case Nil
      with spsc_pop_inv [OF Cons.prems(1), of out] have p: "spsc_pop q out = (False, out, q)"
        by simp
      obtain es1 where r: "spsc_run out q ops = (es1, q')" and e: "es = PopEmpty # es1"
        using Cons.prems(2) Pop p by (auto split: prod.splits)
      from Cons.IH [OF Cons.prems(1) r] show ?thesis using e by simp
    next
      case (Cons x xs')
      with spsc_pop_inv [OF Cons.prems(1), of out] obtain q1
        where p: "spsc_pop q out = (True, x, q1)" and i: "spsc_inv xs' q1"
          and c: "spsc_capacity q1 = spsc_capacity q" by auto
      obtain es1 where r: "spsc_run x q1 ops = (es1, q')" and e: "es = PopOk x # es1"
        using Cons.prems(2) Pop p by (auto split: prod.splits)
      from Cons.IH [OF i r] show ?thesis using e c Cons by simp
    qed
  qed
qed

lemma spsc_reach_inv:
  assumes "SPSCQ_new h t0 c = Inr q0" and "spsc_run out q0 ops = (es, q)"
  obtains ys where "spsc_inv ys q" "pushed es = popped es @ ys" "spsc_capacity q = c"
  using spsc_run_inv [OF spsc_inv_new(1) [OF assms(1)] assms(2)] spsc_inv_new(2) [OF assms(1)]
  by auto

lemma spsc_inv_empty:
  assumes "spsc_inv xs q"
  shows "spsc_empty q \<longleftrightarrow> xs = []"
proof (cases xs)
  case Nil
  with spsc_pop_inv [OF assms, of undefined] show ?thesis
    by (simp add: spsc_empty_def spsc_pop_def Let_def split: if_splits)
next
  case (Cons x xs')
  with spsc_pop_inv [OF assms, of undefined] show ?thesis
    by (auto simp: spsc_empty_def spsc_pop_def Let_def split: if_splits)
qed

text \<open>Popping as often as \<open>size()\<close> says delivers the pending values, each once.\<close>

lemma spsc_drain:
  "spsc_inv xs q \<Longrightarrow>
   \<exists>q'. spsc_run out q (replicate (length xs) Pop) = (map PopOk xs, q') \<and> spsc_inv [] q'"
proof (induction xs arbitrary: q out)
  case Nil
  then show ?case by simp
next
  case (Cons x xs)
  from spsc_pop_inv [OF Cons.prems, of out] obtain q1
    where p: "spsc_pop q out = (True, x, q1)" and i: "spsc_inv xs q1" by auto
  from Cons.IH [OF i, of x] obtain q'
    where "spsc_run x q1 (replicate (length xs) Pop) = (map PopOk xs, q')" "spsc_inv [] q'"
    by blast
  then show ?case using p by simp
qed

lemma spsc_scenario:
  "\<exists>q4 q'. SPSCQ_new \<lparr>elem_size = 4, mem_free = 4096\<rparr> (0::int) 4 = Inr q4 \<and>
     spsc_run 0 q4 [Push 1, Push 2, Push 3, Push 10, Pop, Pop, Push 11]
       = ([PushOk 1, PushOk 2, PushOk 3, PushFull 10, PopOk 1, PopOk 2, PushOk 11], q') \<and>
     spsc_size q' = 2"
proof -
  let ?q4 = "\<lparr>spsc_capacity = 4, spsc_items = [0::int, 0, 0, 0], readIdx = 0, writeIdx = 0\<rparr>"
  let ?q' = "\<lparr>spsc_capacity = 4, spsc_items = [1::int, 2, 3, 11], readIdx = 2, writeIdx = 0\<rparr>"
  have 1: "SPSCQ_new \<lparr>elem_size = 4, mem_free = 4096\<rparr> (0::int) 4 = Inr ?q4" by code_simp
  have 2: "spsc_run 0 ?q4 [Push 1, Push 2, Push 3, Push 10, Pop, Pop, Push 11]
       = ([PushOk 1, PushOk 2, PushOk 3, PushFull 10, PopOk 1, PopOk 2, PushOk 11], ?q')"
    by code_simp
  have 3: "spsc_size ?q' = 2" by code_simp
  from 1 2 3 show ?thesis by blast
qed

text \<open>
  Claim C6.  Used sequentially from construction, the SPSC queue is a FIFO: the values popped
  are, in order, the first of the values pushed with success, and the values pushed and not
  yet popped are exactly those \<open>size()\<close> counts and come out next, in order, so none is
  duplicated or dropped.  With capacity 4: pushes of 1, 2, 3 succeed, a push of 10 returns
  false, two pops yield 1 then 2, a push of 11 succeeds and \<open>size()\<close> is then 2.
\<close>

theorem C6_spsc_fifo:
  "(\<forall>h (t0::'a) c q0 out ops es q.
      SPSCQ_new h t0 c = Inr q0 \<and> spsc_run out q0 ops = (es, q) \<longrightarrow>
      popped es = take (length (popped es)) (pushed es) \<and>
      length (pushed es) = length (popped es) + unat (spsc_size q) \<and>
      (\<exists>q'. spsc_run out q (replicate (unat (spsc_size q)) Pop)
              = (map PopOk (drop (length (popped es)) (pushed es)), q'))) \<and>
   (\<exists>q4 q'. SPSCQ_new \<lparr>elem_size = 4, mem_free = 4096\<rparr> (0::int) 4 = Inr q4 \<and>
      spsc_run 0 q4 [Push 1, Push 2, Push 3, Push 10, Pop, Pop, Push 11]
        = ([PushOk 1, PushOk 2, PushOk 3, PushFull 10, PopOk 1, PopOk 2, PushOk 11], q') \<and>
      spsc_size q' = 2)"
proof (intro conjI allI impI)
  fix h and t0 :: 'a and c q0 out ops es q
  assume a: "SPSCQ_new h t0 c = Inr q0 \<and> spsc_run out q0 ops = (es, q)"
  then have a1: "SPSCQ_new h t0 c = Inr q0" and a2: "spsc_run out q0 ops = (es, q)" by simp_all
  obtain ys where ys: "spsc_inv ys q" "pushed es = popped es @ ys"
    by (rule spsc_reach_inv [OF a1 a2])
  show "popped es = take (length (popped es)) (pushed es)" using ys(2) by simp
  show "length (pushed es) = length (popped es) + unat (spsc_size q)"
    using ys(2) spsc_inv_size [OF ys(1)] by simp
  have dr: "drop (length (popped es)) (pushed es) = ys" by (simp add: ys(2))
  from spsc_drain [OF ys(1), of out] obtain q'
    where "spsc_run out q (replicate (length ys) Pop) = (map PopOk ys, q')" by blast
  then show "\<exists>q'. spsc_run out q (replicate (unat (spsc_size q)) Pop)
              = (map PopOk (drop (length (popped es)) (pushed es)), q')"
    unfolding dr spsc_inv_size [OF ys(1)] by blast
next
  show "\<exists>q4 q'. SPSCQ_new \<lparr>elem_size = 4, mem_free = 4096\<rparr> (0::int) 4 = Inr q4 \<and>
      spsc_run 0 q4 [Push 1, Push 2, Push 3, Push 10, Pop, Pop, Push 11]
        = ([PushOk 1, PushOk 2, PushOk 3, PushFull 10, PopOk 1, PopOk 2, PushOk 11], q') \<and>
      spsc_size q' = 2"
    by (rule spsc_scenario)
qed

theorem C6_spsc_fifo_witness:
  "SPSCQ_new \<lparr>elem_size = 4, mem_free = 4096\<rparr> (7::int) 2
     = Inr \<lparr>spsc_capacity = 2, spsc_items = [7, 7], readIdx = 0, writeIdx = 0\<rparr> \<and>
   spsc_run 7 \<lparr>spsc_capacity = 2, spsc_items = [7::int, 7], readIdx = 0, writeIdx = 0\<rparr>
      [Push 5, Push 6, Pop, Push 8, Pop, Pop]
     = ([PushOk 5, PushFull 6, PopOk 5, PushOk 8, PopOk 8, PopEmpty],
        \<lparr>spsc_capacity = 2, spsc_items = [5, 8], readIdx = 0, writeIdx = 0\<rparr>) \<and>
   popped [PushOk (5::int), PushFull 6, PopOk 5, PushOk 8, PopOk 8, PopEmpty]
     = take (length (popped [PushOk (5::int), PushFull 6, PopOk 5, PushOk 8, PopOk 8, PopEmpty]))
         (pushed [PushOk (5::int), PushFull 6, PopOk 5, PushOk 8, PopOk 8, PopEmpty]) \<and>
   length (pushed [PushOk (5::int), PushFull 6, PopOk 5, PushOk 8, PopOk 8, PopEmpty])
     = length (popped [PushOk (5::int), PushFull 6, PopOk 5, PushOk 8, PopOk 8, PopEmpty])
       + unat (spsc_size
           \<lparr>spsc_capacity = 2, spsc_items = [5::int, 8], readIdx = 0, writeIdx = 0\<rparr>)"
proof -
  have 1: "SPSCQ_new \<lparr>elem_size = 4, mem_free = 4096\<rparr> (7::int) 2
      = Inr \<lparr>spsc_capacity = 2, spsc_items = [7, 7], readIdx = 0, writeIdx = 0\<rparr>"
    by code_simp
  have 2: "spsc_run 7 \<lparr>spsc_capacity = 2, spsc_items = [7::int, 7], readIdx = 0, writeIdx = 0\<rparr>
      [Push 5, Push 6, Pop, Push 8, Pop, Pop]
     = ([PushOk 5, PushFull 6, PopOk 5, PushOk 8, PopOk 8, PopEmpty],
        \<lparr>spsc_capacity = 2, spsc_items = [5, 8], readIdx = 0, writeIdx = 0\<rparr>)"
    by code_simp
  from C6_spsc_fifo [THEN conjunct1, rule_format, OF conjI, OF 1 2] 1 2
  show ?thesis by blast
qed

text \<open>
  Claim C7.  In every state an SPSC queue of capacity \<open>c\<close> reaches, \<open>size()\<close> lies in
  \<open>[0, c - 1]\<close>, \<open>full()\<close> holds exactly when \<open>size() = c - 1\<close>, \<^verbatim>\<open>push\<close> returns false
  exactly when the queue is full, and empty and full never hold together.
\<close>

theorem C7_spsc_bounds:
  assumes "SPSCQ_new h t0 c = Inr q0" and "spsc_run out q0 ops = (es, q)"
  shows "0 \<le> spsc_size q \<and> spsc_size q \<le> c - 1 \<and>
         (spsc_full q \<longleftrightarrow> spsc_size q = c - 1) \<and>
         (\<forall>v. fst (spsc_push q v) = False \<longleftrightarrow> spsc_full q) \<and>
         (spsc_empty q \<longleftrightarrow> spsc_size q = 0) \<and>
         \<not> (spsc_empty q \<and> spsc_full q)"
proof -
  obtain ys where ys: "spsc_inv ys q" and cap: "spsc_capacity q = c"
    by (rule spsc_reach_inv [OF assms])
  have c2: "2 \<le> unat c" using ys cap pow2_ge2_ge2 unfolding spsc_inv_def by blast
  then have c0: "c \<noteq> 0" by auto
  have uc: "unat (c - 1) = unat c - 1" using c0 by (simp add: unat_minus_one)
  have sz: "unat (spsc_size q) = length ys" by (rule spsc_inv_size [OF ys])
  have lt: "length ys < unat c" using ys cap unfolding spsc_inv_def by blast
  have full: "spsc_full q \<longleftrightarrow> Suc (length ys) = unat c" using spsc_inv_full [OF ys] cap by simp
  have A: "spsc_size q \<le> c - 1" using lt by (simp add: word_le_nat_alt uc sz)
  have B: "spsc_full q \<longleftrightarrow> spsc_size q = c - 1"
    using c2 by (auto simp: full word_unat_eq_iff uc sz)
  have C: "fst (spsc_push q v) = False \<longleftrightarrow> spsc_full q" for v
    by (simp add: spsc_push_def spsc_full_def Let_def)
  have D: "spsc_empty q \<longleftrightarrow> spsc_size q = 0"
    using spsc_inv_empty [OF ys] by (simp add: word_unat_eq_iff sz)
  have E: "\<not> (spsc_empty q \<and> spsc_full q)" using c2 by (auto simp: B D word_unat_eq_iff uc)
  from A B C D E show ?thesis by simp
qed

theorem C7_spsc_bounds_witness:
  "SPSCQ_new \<lparr>elem_size = 4, mem_free = 4096\<rparr> (0::int) 4 = Inr \<lparr>spsc_capacity = 4, spsc_items = [0, 0, 0, 0], readIdx = 0, writeIdx = 0\<rparr> \<and>
   spsc_run 0 \<lparr>spsc_capacity = 4, spsc_items = [0::int, 0, 0, 0], readIdx = 0, writeIdx = 0\<rparr>
      [Push 1, Push 2, Push 3]
     = ([PushOk 1, PushOk 2, PushOk 3],
        \<lparr>spsc_capacity = 4, spsc_items = [1, 2, 3, 0], readIdx = 0, writeIdx = 3\<rparr>) \<and>
   spsc_size \<lparr>spsc_capacity = 4, spsc_items = [1::int, 2, 3, 0], readIdx = 0, writeIdx = 3\<rparr> \<le> 4 - 1 \<and>
   spsc_full \<lparr>spsc_capacity = 4, spsc_items = [1::int, 2, 3, 0], readIdx = 0, writeIdx = 3\<rparr> \<and>
   fst (spsc_push \<lparr>spsc_capacity = 4, spsc_items = [1::int, 2, 3, 0], readIdx = 0, writeIdx = 3\<rparr> 10) = False"
proof -
  let ?qi = "\<lparr>spsc_capacity = 4, spsc_items = [0::int, 0, 0, 0], readIdx = 0, writeIdx = 0\<rparr>"
  let ?q = "\<lparr>spsc_capacity = 4, spsc_items = [1::int, 2, 3, 0], readIdx = 0, writeIdx = 3\<rparr>"
  have 1: "SPSCQ_new \<lparr>elem_size = 4, mem_free = 4096\<rparr> (0::int) 4 = Inr ?qi" by code_simp
  have 2: "spsc_run 0 ?qi [Push 1, Push 2, Push 3] = ([PushOk 1, PushOk 2, PushOk 3], ?q)"
    by code_simp
  from C7_spsc_bounds [OF 1 2]
  have a: "spsc_size ?q \<le> 4 - 1" and b: "spsc_full ?q \<longleftrightarrow> spsc_size ?q = 4 - 1"
    and c: "fst (spsc_push ?q 10) = False \<longleftrightarrow> spsc_full ?q" by blast+
  have 3: "spsc_size ?q = 4 - 1" by code_simp
  from a b c 1 2 3 show ?thesis by blast
qed

section \<open>SPMC: producer, slots and consumer counters\<close>

lemma idx_succ_eq_cap:
  assumes "pow2_ge2 c" "unat (x::size_t) < unat c"
  shows "x + 1 = c \<longleftrightarrow> Suc (unat x) = unat c"
proof -
  have "unat x + unat (1::size_t) < 2 ^ LENGTH(64)"
    using assms(2) unsigned_less [of c, where 'a = nat] by simp
  then have "unat (x + 1) = unat x + unat (1::size_t)" by (simp only: unat_add_lem)
  then have "unat (x + 1) = Suc (unat x)" by simp
  then show ?thesis by (simp add: word_unat_eq_iff)
qed

lemma Suc_div_ring:
  "0 < C \<Longrightarrow> Suc w div C = (if Suc (w mod C) = C then Suc (w div C) else w div C)"
  by (simp add: div_Suc mod_Suc)

lemma version_step:
  assumes "0 < C"
  shows "(of_nat (w div C) :: uint32) + (if Suc (w mod C) = C then 1 else 0) = of_nat (Suc w div C)"
  using assms by (simp add: Suc_div_ring)

lemma of_nat_32_neq:
  assumes "0 < j" "j < 2 ^ 32"
  shows "(of_nat (a + j) :: uint32) \<noteq> of_nat a"
proof
  assume "(of_nat (a + j) :: uint32) = of_nat a"
  then have "(of_nat j :: uint32) = 0" by simp
  then have "unat (of_nat j :: uint32) = 0" by simp
  then have "j mod 2 ^ 32 = 0" by (simp add: unat_of_nat)
  with assms show False by simp
qed

lemma spmc_inv_new:
  assumes "SPMCQ_new h t0 c = Inr q"
  shows "spmc_inv [] q (getProducer q)" and "spmc_capacity q = c"
proof -
  from assms have ok: "pow2_ge2 c"
    and q: "q = \<lparr>spmc_capacity = c, spmc_items = replicate (unat c) \<lparr>data = t0, version = 0\<rparr>,
                 mReadIndex = 0, mWriteIndex = 0\<rparr>"
    using bitset_test_iff [of c] by (auto simp: SPMCQ_new_def make_unique_def split: if_splits)
  show "spmc_capacity q = c" by (simp add: q)
  show "spmc_inv [] q (getProducer q)"
    unfolding spmc_inv_def using ok by (simp add: q getProducer_def)
qed

lemma spmc_push_eq:
  "spmc_push q p v =
     (True,
      p\<lparr>lWriteIdx := (lWriteIdx p + 1) AND (prod_capacity p - 1),
        prod_lVersion := prod_lVersion p + (if lWriteIdx p + 1 = prod_capacity p then 1 else 0)\<rparr>,
      q\<lparr>mWriteIndex := (lWriteIdx p + 1) AND (prod_capacity p - 1),
        spmc_items := (spmc_items q)[unat (lWriteIdx p) := \<lparr>data = v, version = prod_lVersion p\<rparr>],
        mReadIndex := (lWriteIdx p + 1) AND (prod_capacity p - 1)\<rparr>)"
  by (simp add: spmc_push_def push_stores_def Let_def)

lemma spmc_push_inv:
  assumes "spmc_inv W q p"
  shows "\<exists>p' q'. spmc_push q p v = (True, p', q') \<and> spmc_inv (W @ [v]) q' p' \<and>
                 spmc_capacity q' = spmc_capacity q"
proof -
  let ?C = "unat (spmc_capacity q)"
  let ?w = "length W"
  let ?nxt = "(lWriteIdx p + 1) AND (prod_capacity p - 1)"
  let ?p' = "p\<lparr>lWriteIdx := ?nxt,
        prod_lVersion := prod_lVersion p + (if lWriteIdx p + 1 = prod_capacity p then 1 else 0)\<rparr>"
  let ?q' = "q\<lparr>mWriteIndex := ?nxt,
        spmc_items := (spmc_items q)[unat (lWriteIdx p) := \<lparr>data = v, version = prod_lVersion p\<rparr>],
        mReadIndex := ?nxt\<rparr>"
  from assms have c: "pow2_ge2 (spmc_capacity q)" and pc: "prod_capacity p = spmc_capacity q"
    and len: "length (spmc_items q) = ?C"
    and wi: "unat (lWriteIdx p) = ?w mod ?C"
    and ver: "prod_lVersion p = of_nat (?w div ?C)"
    and el: "\<forall>k<?w. ?w \<le> k + ?C \<longrightarrow>
        spmc_items q ! (k mod ?C) = \<lparr>data = W ! k, version = of_nat (k div ?C)\<rparr>"
    unfolding spmc_inv_def by blast+
  have Cpos: "0 < ?C" using pow2_ge2_ge2 [OF c] by simp
  have wlt: "unat (lWriteIdx p) < ?C" using wi Cpos by simp
  have wi': "unat ?nxt = Suc ?w mod ?C"
    unfolding pc by (simp add: idx_next [OF c] wi mod_simps)
  have wrap: "lWriteIdx p + 1 = prod_capacity p \<longleftrightarrow> Suc (?w mod ?C) = ?C"
    unfolding pc using idx_succ_eq_cap [OF c wlt] wi by simp
  have ver': "prod_lVersion ?p' = of_nat (Suc ?w div ?C)"
    using version_step [OF Cpos, of ?w] by (simp add: wrap ver)
  have el': "spmc_items ?q' ! (k mod ?C) = \<lparr>data = (W @ [v]) ! k, version = of_nat (k div ?C)\<rparr>"
    if k: "k < Suc ?w" "Suc ?w \<le> k + ?C" for k
  proof (cases "k = ?w")
    case True
    then show ?thesis using len wlt by (simp add: wi ver)
  next
    case False
    with k have kw: "k < ?w" by simp
    have "k mod ?C \<noteq> ?w mod ?C"
    proof
      assume "k mod ?C = ?w mod ?C"
      from mod_inj_window [OF this] kw k(2) show False by simp
    qed
    moreover have "spmc_items q ! (k mod ?C) = \<lparr>data = W ! k, version = of_nat (k div ?C)\<rparr>"
      using el kw k(2) by simp
    ultimately show ?thesis using kw by (simp add: wi nth_append)
  qed
  have "spmc_inv (W @ [v]) ?q' ?p'"
    unfolding spmc_inv_def
  proof (intro conjI allI impI)
    show "pow2_ge2 (spmc_capacity ?q')" using c by simp
    show "prod_capacity ?p' = spmc_capacity ?q'" using pc by simp
    show "length (spmc_items ?q') = unat (spmc_capacity ?q')" using len by simp
    show "unat (lWriteIdx ?p') = length (W @ [v]) mod unat (spmc_capacity ?q')" using wi' by simp
    show "prod_lVersion ?p' = of_nat (length (W @ [v]) div unat (spmc_capacity ?q'))"
      using ver' by simp
    show "mReadIndex ?q' = lWriteIdx ?p'" by simp
    show "mWriteIndex ?q' = lWriteIdx ?p'" by simp
    fix k assume "k < length (W @ [v])" "length (W @ [v]) \<le> k + unat (spmc_capacity ?q')"
    then show "spmc_items ?q' ! (k mod unat (spmc_capacity ?q'))
          = \<lparr>data = (W @ [v]) ! k, version = of_nat (k div unat (spmc_capacity ?q'))\<rparr>"
      using el' [of k] by simp
  qed
  then show ?thesis by (simp add: spmc_push_eq)
qed

lemma cons_at_new: "cons_at (spmc_capacity q) 0 (getConsumer q)"
  by (simp add: cons_at_def getConsumer_def)

text \<open>What a pop does at a consumer that stands at counter \<open>r\<close>.\<close>

lemma spmc_pop_empty_iff:
  assumes inv: "spmc_inv W q p" and at: "cons_at (spmc_capacity q) r c"
  shows "lReadIdx c = mReadIndex q \<longleftrightarrow>
         r mod unat (spmc_capacity q) = length W mod unat (spmc_capacity q)"
proof -
  from inv have "unat (mReadIndex q) = length W mod unat (spmc_capacity q)"
    unfolding spmc_inv_def by simp
  moreover from at have "unat (lReadIdx c) = r mod unat (spmc_capacity q)"
    unfolding cons_at_def by simp
  ultimately show ?thesis by (simp add: word_unat_eq_iff)
qed

lemma spmc_pop_ok:
  assumes inv: "spmc_inv W q p" and at: "cons_at (spmc_capacity q) r c"
    and ne: "lReadIdx c \<noteq> mReadIndex q"
    and rlt: "r < length W" and near: "length W \<le> r + unat (spmc_capacity q)"
  shows "\<exists>c'. spmc_pop q c out = Inr (True, W ! r, c') \<and> cons_at (spmc_capacity q) (Suc r) c'"
proof -
  let ?C = "unat (spmc_capacity q)"
  let ?w = "length W"
  from inv have c: "pow2_ge2 (spmc_capacity q)"
    and el: "\<forall>k<?w. ?w \<le> k + ?C \<longrightarrow>
        spmc_items q ! (k mod ?C) = \<lparr>data = W ! k, version = of_nat (k div ?C)\<rparr>"
    unfolding spmc_inv_def by blast+
  from at have cc: "cons_capacity c = spmc_capacity q" and ri: "unat (lReadIdx c) = r mod ?C"
    and rv: "cons_lVersion c = of_nat (r div ?C)"
    unfolding cons_at_def by blast+
  have Cpos: "0 < ?C" using pow2_ge2_ge2 [OF c] by simp
  let ?c' = "c\<lparr>lReadIdx := (lReadIdx c + 1) AND (cons_capacity c - 1),
               cons_lVersion := cons_lVersion c + (if lReadIdx c + 1 = cons_capacity c then 1 else 0)\<rparr>"
  have slot: "spmc_items q ! unat (lReadIdx c) = \<lparr>data = W ! r, version = of_nat (r div ?C)\<rparr>"
    using el rlt near by (simp add: ri)
  then have pop: "spmc_pop q c out = Inr (True, W ! r, ?c')"
    using ne by (simp add: spmc_pop_def Let_def rv)
  have rlt': "unat (lReadIdx c) < ?C" using ri Cpos by simp
  have wrap: "lReadIdx c + 1 = cons_capacity c \<longleftrightarrow> Suc (r mod ?C) = ?C"
    unfolding cc using idx_succ_eq_cap [OF c rlt'] ri by simp
  have "cons_at (spmc_capacity q) (Suc r) ?c'"
    unfolding cons_at_def
  proof (intro conjI)
    show "cons_capacity ?c' = spmc_capacity q" using cc by simp
    show "unat (lReadIdx ?c') = Suc r mod ?C"
      by (simp add: cc idx_next [OF c] ri mod_simps)
    show "cons_lVersion ?c' = of_nat (Suc r div ?C)"
      using version_step [OF Cpos, of r] by (simp add: wrap rv)
  qed
  then show ?thesis using pop by blast
qed

lemma spmc_pop_lapped:
  assumes inv: "spmc_inv W q p" and at: "cons_at (spmc_capacity q) r c"
    and ne: "lReadIdx c \<noteq> mReadIndex q"
    and far: "r + unat (spmc_capacity q) < length W"
    and bound: "length W < 2 ^ 32 * unat (spmc_capacity q)"
  shows "spmc_pop q c out = Inl (Overlapped (lReadIdx c))"
proof -
  let ?C = "unat (spmc_capacity q)"
  let ?w = "length W"
  from inv have c: "pow2_ge2 (spmc_capacity q)"
    and el: "\<forall>k<?w. ?w \<le> k + ?C \<longrightarrow>
        spmc_items q ! (k mod ?C) = \<lparr>data = W ! k, version = of_nat (k div ?C)\<rparr>"
    unfolding spmc_inv_def by blast+
  from at have ri: "unat (lReadIdx c) = r mod ?C" and rv: "cons_lVersion c = of_nat (r div ?C)"
    unfolding cons_at_def by blast+
  have Cpos: "0 < ?C" using pow2_ge2_ge2 [OF c] by simp
  define j where "j = (?w - 1 - r) div ?C"
  define k where "k = r + j * ?C"
  have big: "?C \<le> ?w - 1 - r" using far by simp
  have j1: "0 < j" unfolding j_def using big Cpos by (simp add: div_greater_zero_iff)
  have jle: "j * ?C \<le> ?w - 1 - r" unfolding j_def by simp
  have jgt: "?w - 1 - r < j * ?C + ?C"
    unfolding j_def using Cpos dividend_less_div_times [of ?C "?w - 1 - r"]
    by (simp add: mult.commute)
  have kw: "k < ?w" unfolding k_def using jle far by simp
  have wk: "?w \<le> k + ?C" unfolding k_def using jgt by simp
  have kmod: "k mod ?C = r mod ?C" unfolding k_def by simp
  have kdiv: "k div ?C = r div ?C + j" unfolding k_def using Cpos by simp
  have "j * ?C \<le> ?w" using jle by linarith
  then have "j * ?C < 2 ^ 32 * ?C" using bound by (rule le_less_trans)
  then have j32: "j < 2 ^ 32" by (simp only: mult_less_cancel2)
  have "spmc_items q ! (k mod ?C) = \<lparr>data = W ! k, version = of_nat (k div ?C)\<rparr>"
    using el kw wk by simp
  then have "version (spmc_items q ! unat (lReadIdx c)) = of_nat (r div ?C + j)"
    by (simp add: kmod kdiv ri)
  then have "version (spmc_items q ! unat (lReadIdx c)) \<noteq> cons_lVersion c"
    using of_nat_32_neq [OF j1 j32, of "r div ?C"] by (simp add: rv)
  then show ?thesis using ne by (simp add: spmc_pop_def Let_def)
qed

lemma spmc_pop_cases:
  assumes inv: "spmc_inv W q p" and at: "cons_at (spmc_capacity q) r c"
    and rw: "r \<le> length W" and bound: "length W < 2 ^ 32 * unat (spmc_capacity q)"
  shows "spmc_pop q c out = Inr (False, out, c) \<or>
         spmc_pop q c out = Inl (Overlapped (lReadIdx c)) \<or>
         (r < length W \<and>
          (\<exists>c'. spmc_pop q c out = Inr (True, W ! r, c') \<and> cons_at (spmc_capacity q) (Suc r) c'))"
proof (cases "lReadIdx c = mReadIndex q")
  case True
  then show ?thesis by (simp add: spmc_pop_def)
next
  case ne: False
  then have "r \<noteq> length W" using spmc_pop_empty_iff [OF inv at] by auto
  with rw have rlt: "r < length W" by simp
  show ?thesis
  proof (cases "length W \<le> r + unat (spmc_capacity q)")
    case True
    from spmc_pop_ok [OF inv at ne rlt True] rlt show ?thesis by blast
  next
    case False
    then have "r + unat (spmc_capacity q) < length W" by simp
    from spmc_pop_lapped [OF inv at ne this bound] show ?thesis by blast
  qed
qed

lemma pushes_Cons: "pushes (e # es) = pushes [e] @ pushes es"
  by (cases e) simp_all

lemma pops_Cons: "pops i (e # es) = pops i [e] @ pops i es"
  by (cases e) simp_all

lemma sys_step_inv:
  assumes "sys_step out x s = (e, s')" and "spmc_inv W (queue s) (producer s)"
  shows "spmc_inv (W @ pushes [e]) (queue s') (producer s')"
    and "spmc_capacity (queue s') = spmc_capacity (queue s)"
proof -
  have "spmc_inv (W @ pushes [e]) (queue s') (producer s') \<and>
        spmc_capacity (queue s') = spmc_capacity (queue s)"
  proof (cases x)
    case (SysPush v)
    from spmc_push_inv [OF assms(2), of v] obtain p' q'
      where "spmc_push (queue s) (producer s) v = (True, p', q')"
        and "spmc_inv (W @ [v]) q' p'" and "spmc_capacity q' = spmc_capacity (queue s)"
      by blast
    then show ?thesis using assms(1) SysPush by auto
  next
    case (SysPop j)
    then show ?thesis using assms
      by (auto split: if_splits sum.splits prod.splits)
  next
    case SysGetConsumer
    then show ?thesis using assms by auto
  qed
  then show "spmc_inv (W @ pushes [e]) (queue s') (producer s')"
    and "spmc_capacity (queue s') = spmc_capacity (queue s)" by simp_all
qed

lemma sys_run_inv:
  "sys_run out s ops = (es, s') \<Longrightarrow> spmc_inv W (queue s) (producer s) \<Longrightarrow>
   spmc_inv (W @ pushes es) (queue s') (producer s') \<and>
   spmc_capacity (queue s') = spmc_capacity (queue s)"
proof (induction ops arbitrary: s W es)
  case Nil
  then show ?case by simp
next
  case (Cons x xs)
  obtain e s1 where st: "sys_step out x s = (e, s1)" by (cases "sys_step out x s")
  obtain es1 where run: "sys_run out s1 xs = (es1, s')" and es: "es = e # es1"
    using Cons.prems(1) st by (auto split: prod.splits)
  note i1 = sys_step_inv [OF st Cons.prems(2)]
  from Cons.IH [OF run i1(1)] i1(2) show ?case
    unfolding es by (simp add: pushes_Cons [of e es1])
qed

lemma sys_step_track:
  assumes step: "sys_step out x s = (e, s')"
    and inv: "spmc_inv W (queue s) (producer s)"
    and tr: "tracks (spmc_capacity (queue s)) r i (consumers s)"
    and rw: "r \<le> length W"
    and bound: "length W < 2 ^ 32 * unat (spmc_capacity (queue s))"
    and nov: "e \<noteq> EvOverlapped i"
  shows "tracks (spmc_capacity (queue s)) (r + length (pops i [e])) i (consumers s') \<and>
         r + length (pops i [e]) \<le> length W \<and>
         pops i [e] = take (length (pops i [e])) (drop r W)"
proof (cases x)
  case (SysPush v)
  then show ?thesis using step tr rw by (auto simp: spmc_push_eq)
next
  case SysGetConsumer
  then have e: "e = EvGetConsumer (length (consumers s))"
    and s': "consumers s' = consumers s @ [getConsumer (queue s)]" using step by auto
  have "tracks (spmc_capacity (queue s)) r i (consumers s @ [getConsumer (queue s)])"
    using tr cons_at_new [of "queue s"]
    by (auto simp: tracks_def nth_append less_Suc_eq)
  then show ?thesis using rw by (simp add: e s')
next
  case (SysPop j)
  show ?thesis
  proof (cases "j < length (consumers s)")
    case False
    then show ?thesis using step SysPop tr rw by auto
  next
    case jlt: True
    show ?thesis
    proof (cases "j = i")
      case False
      have "pops i [e] = []" and "consumers s' ! i = consumers s ! i"
        and "length (consumers s') = length (consumers s)"
        using step SysPop jlt False by (auto split: sum.splits prod.splits if_splits)
      then show ?thesis using tr rw by (simp add: tracks_def)
    next
      case True
      with jlt tr have at: "cons_at (spmc_capacity (queue s)) r (consumers s ! i)"
        by (simp add: tracks_def)
      let ?c = "consumers s ! i"
      from spmc_pop_cases [OF inv at rw bound, of out]
      consider (empty) "spmc_pop (queue s) ?c out = Inr (False, out, ?c)"
        | (over) "spmc_pop (queue s) ?c out = Inl (Overlapped (lReadIdx ?c))"
        | (ok) c' where "r < length W" "spmc_pop (queue s) ?c out = Inr (True, W ! r, c')"
            "cons_at (spmc_capacity (queue s)) (Suc r) c'"
        by blast
      then show ?thesis
      proof cases
        case empty
        then have "e = EvPopEmpty i" "s' = s\<lparr>consumers := (consumers s)[i := ?c]\<rparr>"
          using step SysPop jlt True by auto
        then show ?thesis using tr rw by (simp add: tracks_def)
      next
        case over
        then have "e = EvOverlapped i" using step SysPop jlt True by auto
        with nov show ?thesis by simp
      next
        case ok
        then have "e = EvPopOk i (W ! r)" "s' = s\<lparr>consumers := (consumers s)[i := c']\<rparr>"
          using step SysPop jlt True by auto
        then show ?thesis using ok(1,3) jlt True
          by (simp add: tracks_def take_Suc_conv_app_nth)
      qed
    qed
  qed
qed

lemma take_drop_chain:
  assumes a: "a = take (length a) (drop r W)" and la: "r + length a \<le> length W"
    and b: "b = take (length b) (drop (r + length a) (W @ X))"
  shows "a @ b = take (length (a @ b)) (drop r (W @ X))"
proof -
  have "drop r W = a @ drop (r + length a) W"
    using a by (metis add.commute append_take_drop_id drop_drop)
  then have "drop r (W @ X) = a @ drop (r + length a) (W @ X)" using la by simp
  then have "take (length (a @ b)) (drop r (W @ X)) = a @ take (length b) (drop (r + length a) (W @ X))"
    by simp
  then show ?thesis using b by simp
qed

lemma sys_run_track:
  "sys_run out s ops = (es, s') \<Longrightarrow>
   spmc_inv W (queue s) (producer s) \<Longrightarrow>
   tracks (spmc_capacity (queue s)) r i (consumers s) \<Longrightarrow>
   r \<le> length W \<Longrightarrow>
   length W + length (pushes es) < 2 ^ 32 * unat (spmc_capacity (queue s)) \<Longrightarrow>
   EvOverlapped i \<notin> set es \<Longrightarrow>
   pops i es = take (length (pops i es)) (drop r (W @ pushes es)) \<and>
   tracks (spmc_capacity (queue s)) (r + length (pops i es)) i (consumers s') \<and>
   r + length (pops i es) \<le> length (W @ pushes es)"
proof (induction ops arbitrary: s W r es)
  case Nil
  then show ?case by simp
next
  case (Cons x xs)
  let ?cap = "spmc_capacity (queue s)"
  obtain e s1 where st: "sys_step out x s = (e, s1)" by (cases "sys_step out x s")
  obtain es1 where run: "sys_run out s1 xs = (es1, s')" and es: "es = e # es1"
    using Cons.prems(1) st by (auto split: prod.splits)
  have pe: "pushes es = pushes [e] @ pushes es1" unfolding es by (rule pushes_Cons)
  have po: "pops i es = pops i [e] @ pops i es1" unfolding es by (rule pops_Cons)
  have b0: "length W < 2 ^ 32 * unat ?cap" using Cons.prems(5) by simp
  have nov: "e \<noteq> EvOverlapped i" "EvOverlapped i \<notin> set es1" using Cons.prems(6) es by auto
  note i1 = sys_step_inv [OF st Cons.prems(2)]
  from sys_step_track [OF st Cons.prems(2,3,4) b0 nov(1)]
  have t1: "tracks ?cap (r + length (pops i [e])) i (consumers s1)"
    and r1: "r + length (pops i [e]) \<le> length W"
    and p1: "pops i [e] = take (length (pops i [e])) (drop r W)" by blast+
  have r1': "r + length (pops i [e]) \<le> length (W @ pushes [e])" using r1 by simp
  have b1: "length (W @ pushes [e]) + length (pushes es1) < 2 ^ 32 * unat (spmc_capacity (queue s1))"
    using Cons.prems(5) by (simp add: pe i1(2))
  from Cons.IH [OF run i1(1) t1 [folded i1(2)] r1' b1 nov(2)]
  have p2: "pops i es1 = take (length (pops i es1))
              (drop (r + length (pops i [e])) ((W @ pushes [e]) @ pushes es1))"
    and t2: "tracks ?cap (r + length (pops i [e]) + length (pops i es1)) i (consumers s')"
    and r2: "r + length (pops i [e]) + length (pops i es1) \<le> length ((W @ pushes [e]) @ pushes es1)"
    by (simp_all add: i1(2))
  have "pops i [e] @ pops i es1
        = take (length (pops i [e] @ pops i es1)) (drop r (W @ pushes [e] @ pushes es1))"
    by (rule take_drop_chain [OF p1 r1 p2 [unfolded append_assoc]])
  then have A: "pops i es = take (length (pops i es)) (drop r (W @ pushes es))"
    unfolding pe po .
  have B: "tracks ?cap (r + length (pops i es)) i (consumers s')"
    using t2 unfolding po by (simp only: length_append add.assoc)
  have C: "r + length (pops i es) \<le> length (W @ pushes es)"
    using r2 unfolding po pe by (simp only: length_append append_assoc add.assoc)
  from A B C show ?case by blast
qed

lemma sys_reach_inv:
  assumes "SPMCQ_new h t0 cap = Inr q0" and "sys_run out (sys_new q0) ops = (es, s)"
  shows "spmc_inv (pushes es) (queue s) (producer s)" and "spmc_capacity (queue s) = cap"
proof -
  have "spmc_inv [] (queue (sys_new q0)) (producer (sys_new q0))"
    using spmc_inv_new(1) [OF assms(1)] by (simp add: sys_new_def)
  from sys_run_inv [OF assms(2) this]
  show "spmc_inv (pushes es) (queue s) (producer s)" and "spmc_capacity (queue s) = cap"
    using spmc_inv_new(2) [OF assms(1)] by (simp_all add: sys_new_def)
qed

lemma spmc_inv_idx:
  assumes "spmc_inv W q p"
  shows "unat (lWriteIdx p) < unat (spmc_capacity q)"
    and "unat (lWriteIdx p) < length (spmc_items q)"
proof -
  from assms have c: "pow2_ge2 (spmc_capacity q)"
    and wi: "unat (lWriteIdx p) = length W mod unat (spmc_capacity q)"
    and len: "length (spmc_items q) = unat (spmc_capacity q)"
    unfolding spmc_inv_def by blast+
  have "0 < unat (spmc_capacity q)" using pow2_ge2_ge2 [OF c] by simp
  then show "unat (lWriteIdx p) < unat (spmc_capacity q)" using wi by simp
  then show "unat (lWriteIdx p) < length (spmc_items q)" using len by simp
qed

lemma idx_next_neq:
  assumes "pow2_ge2 c" "unat (x::size_t) < unat c"
  shows "(x + 1) AND (c - 1) \<noteq> x"
proof
  assume "(x + 1) AND (c - 1) = x"
  then have "unat ((x + 1) AND (c - 1)) = unat x" by simp
  then have "(unat x + 1) mod unat c = unat x mod unat c"
    using assms(2) by (simp add: idx_next [OF assms(1)])
  from mod_inj_window [OF this [symmetric]] pow2_ge2_ge2 [OF assms(1)] show False by simp
qed

text \<open>
  Claim C10.  A completed \<^verbatim>\<open>push\<close> sets \<open>mReadIndex\<close> and \<open>mWriteIndex\<close> to the same new write
  index.  So in every state reached by whole calls the two are equal, and the queue-level
  observers report \<open>empty() = true\<close>, \<open>size() = 0\<close> and \<open>full() = false\<close>, whatever was pushed
  and whatever the consumers have read.
\<close>

theorem C10_queue_observers:
  assumes "SPMCQ_new h t0 cap = Inr q0" and "sys_run out (sys_new q0) ops = (es, s)"
  shows "mReadIndex (queue s) = mWriteIndex (queue s) \<and>
         mWriteIndex (queue s) = lWriteIdx (producer s) \<and>
         spmc_empty (queue s) \<and> spmc_size (queue s) = 0 \<and> \<not> spmc_full (queue s) \<and>
         (\<forall>v. case spmc_push (queue s) (producer s) v of
                (ok, p', q') \<Rightarrow> mReadIndex q' = lWriteIdx p' \<and> mWriteIndex q' = lWriteIdx p')"
proof -
  note inv = sys_reach_inv [OF assms]
  from inv(1) have c: "pow2_ge2 (spmc_capacity (queue s))"
    and mr: "mReadIndex (queue s) = lWriteIdx (producer s)"
    and mw: "mWriteIndex (queue s) = lWriteIdx (producer s)"
    unfolding spmc_inv_def by blast+
  have "\<not> spmc_full (queue s)"
    unfolding spmc_full_def mr mw using idx_next_neq [OF c spmc_inv_idx(1) [OF inv(1)]] .
  moreover have "spmc_empty (queue s)" by (simp add: spmc_empty_def mr mw)
  moreover have "spmc_size (queue s) = 0" by (simp add: spmc_size_def mr mw)
  moreover have "case spmc_push (queue s) (producer s) v of
      (ok, p', q') \<Rightarrow> mReadIndex q' = lWriteIdx p' \<and> mWriteIndex q' = lWriteIdx p'" for v
    by (simp add: spmc_push_eq)
  ultimately show ?thesis using mr mw by simp
qed

theorem C10_queue_observers_witness:
  "SPMCQ_new \<lparr>elem_size = 128, mem_free = 4096\<rparr> (0::int) 4
     = Inr \<lparr>spmc_capacity = 4, spmc_items = replicate 4 \<lparr>data = 0, version = 0\<rparr>,
            mReadIndex = 0, mWriteIndex = 0\<rparr> \<and>
   fst (sys_run 0 (sys_new \<lparr>spmc_capacity = 4,
                            spmc_items = replicate 4 \<lparr>data = 0::int, version = 0\<rparr>,
                            mReadIndex = 0, mWriteIndex = 0\<rparr>)
          [SysGetConsumer, SysPush 1, SysPush 2, SysPush 3])
     = [EvGetConsumer 0, EvPush 1 True, EvPush 2 True, EvPush 3 True] \<and>
   spmc_empty (queue (snd (sys_run 0 (sys_new \<lparr>spmc_capacity = 4,
                            spmc_items = replicate 4 \<lparr>data = 0::int, version = 0\<rparr>,
                            mReadIndex = 0, mWriteIndex = 0\<rparr>)
          [SysGetConsumer, SysPush 1, SysPush 2, SysPush 3]))) \<and>
   spmc_size (queue (snd (sys_run 0 (sys_new \<lparr>spmc_capacity = 4,
                            spmc_items = replicate 4 \<lparr>data = 0::int, version = 0\<rparr>,
                            mReadIndex = 0, mWriteIndex = 0\<rparr>)
          [SysGetConsumer, SysPush 1, SysPush 2, SysPush 3]))) = 0"
proof -
  let ?Q = "\<lparr>spmc_capacity = 4, spmc_items = replicate 4 \<lparr>data = 0::int, version = 0\<rparr>,
            mReadIndex = 0, mWriteIndex = 0\<rparr>"
  let ?ops = "[SysGetConsumer, SysPush (1::int), SysPush 2, SysPush 3]"
  have 1: "SPMCQ_new \<lparr>elem_size = 128, mem_free = 4096\<rparr> (0::int) 4 = Inr ?Q" by code_simp
  have 2: "sys_run 0 (sys_new ?Q) ?ops
      = (fst (sys_run 0 (sys_new ?Q) ?ops), snd (sys_run 0 (sys_new ?Q) ?ops))" by simp
  have 3: "fst (sys_run 0 (sys_new ?Q) ?ops)
      = [EvGetConsumer 0, EvPush 1 True, EvPush 2 True, EvPush 3 True]" by code_simp
  from C10_queue_observers [OF 1 2] 1 3 show ?thesis by blast
qed

lemma sys_update_all:
  "s\<lparr>queue := q', producer := p', consumers := cs\<rparr>
     = \<lparr>queue = q', producer = p', consumers = cs\<rparr>"
  by (cases s) simp

text \<open>
  Claim C3.  \<^verbatim>\<open>push\<close> returns true on every handle, queue and value.  In every reachable state
  and for every value it writes
  the value with the producer's current version into the slot at the local write index
  (which, once the buffer has been filled, holds the oldest value still stored),
  advances that index by one modulo the capacity, adds one to the version exactly when
  the index wraps, and its effect is the same whatever the consumer handles are, which it
  leaves as they were.
\<close>

theorem C3_push_always_succeeds:
  assumes "SPMCQ_new h t0 cap = Inr q0" and "sys_run out (sys_new q0) ops = (es, s)"
  shows "\<exists>p' q'. spmc_push (queue s) (producer s) v = (True, p', q') \<and>
           unat (lWriteIdx (producer s)) < length (spmc_items (queue s)) \<and>
           spmc_items q' = (spmc_items (queue s))[unat (lWriteIdx (producer s)) :=
                              \<lparr>data = v, version = prod_lVersion (producer s)\<rparr>] \<and>
           unat (lWriteIdx p') = (unat (lWriteIdx (producer s)) + 1) mod unat cap \<and>
           prod_lVersion p' = prod_lVersion (producer s)
              + (if unat (lWriteIdx (producer s)) + 1 = unat cap then 1 else 0) \<and>
           (unat cap \<le> length (pushes es) \<longrightarrow>
              data (spmc_items (queue s) ! unat (lWriteIdx (producer s)))
                = pushes es ! (length (pushes es) - unat cap)) \<and>
           (\<forall>cs. sys_step out (SysPush v) (s\<lparr>consumers := cs\<rparr>)
                   = (EvPush v True, \<lparr>queue = q', producer = p', consumers = cs\<rparr>)) \<and>
           (\<forall>q p. fst (spmc_push q p v) = True)"
proof -
  note inv = sys_reach_inv [OF assms]
  let ?q = "queue s" and ?p = "producer s"
  from inv(1) have c: "pow2_ge2 (spmc_capacity ?q)" and pc: "prod_capacity ?p = spmc_capacity ?q"
    unfolding spmc_inv_def by blast+
  note lt = spmc_inv_idx [OF inv(1)]
  have wrap: "lWriteIdx ?p + 1 = prod_capacity ?p \<longleftrightarrow> unat (lWriteIdx ?p) + 1 = unat cap"
    unfolding pc using idx_succ_eq_cap [OF c lt(1)] inv(2) by simp
  have nxt: "unat ((lWriteIdx ?p + 1) AND (prod_capacity ?p - 1))
      = (unat (lWriteIdx ?p) + 1) mod unat cap"
    unfolding pc using idx_next [OF c] inv(2) by simp
  let ?nxt = "(lWriteIdx ?p + 1) AND (prod_capacity ?p - 1)"
  let ?p' = "?p\<lparr>lWriteIdx := ?nxt,
        prod_lVersion := prod_lVersion ?p + (if lWriteIdx ?p + 1 = prod_capacity ?p then 1 else 0)\<rparr>"
  let ?q' = "?q\<lparr>mWriteIndex := ?nxt,
        spmc_items := (spmc_items ?q)[unat (lWriteIdx ?p) := \<lparr>data = v, version = prod_lVersion ?p\<rparr>],
        mReadIndex := ?nxt\<rparr>"
  have push: "spmc_push ?q ?p v = (True, ?p', ?q')" by (rule spmc_push_eq)
  have items: "spmc_items ?q' = (spmc_items ?q)[unat (lWriteIdx ?p) :=
                              \<lparr>data = v, version = prod_lVersion ?p\<rparr>]" by simp
  have idx: "unat (lWriteIdx ?p') = (unat (lWriteIdx ?p) + 1) mod unat cap" using nxt by simp
  have ver: "prod_lVersion ?p' = prod_lVersion ?p
              + (if unat (lWriteIdx ?p) + 1 = unat cap then 1 else 0)" using wrap by simp
  have sys: "sys_step out (SysPush v) (s\<lparr>consumers := cs\<rparr>)
                   = (EvPush v True, \<lparr>queue = ?q', producer = ?p', consumers = cs\<rparr>)" for cs
  proof -
    have "s\<lparr>queue := ?q', producer := ?p', consumers := cs\<rparr>
          = \<lparr>queue = ?q', producer = ?p', consumers = cs\<rparr>" by (rule sys_update_all)
    then show ?thesis by (simp add: push)
  qed
  have ok: "\<forall>q p. fst (spmc_push q p v) = True" by (simp add: spmc_push_eq)
  have oldest: "unat cap \<le> length (pushes es) \<longrightarrow>
      data (spmc_items ?q ! unat (lWriteIdx ?p)) = pushes es ! (length (pushes es) - unat cap)"
  proof
    let ?w = "length (pushes es)"
    assume le: "unat cap \<le> ?w"
    from inv(1) have wi: "unat (lWriteIdx ?p) = ?w mod unat cap"
      and el: "\<forall>k<?w. ?w \<le> k + unat cap \<longrightarrow>
          spmc_items ?q ! (k mod unat cap)
            = \<lparr>data = pushes es ! k, version = of_nat (k div unat cap)\<rparr>"
      unfolding spmc_inv_def inv(2) by blast+
    have pos: "0 < unat cap" using pow2_ge2_ge2 [OF c] inv(2) by simp
    have "(?w - unat cap) mod unat cap = ?w mod unat cap" using le by (simp add: le_mod_geq)
    moreover have "spmc_items ?q ! ((?w - unat cap) mod unat cap)
        = \<lparr>data = pushes es ! (?w - unat cap), version = of_nat ((?w - unat cap) div unat cap)\<rparr>"
      using el [rule_format, of "?w - unat cap"] le pos by simp
    ultimately show "data (spmc_items ?q ! unat (lWriteIdx ?p)) = pushes es ! (?w - unat cap)"
      by (simp add: wi)
  qed
  from push lt(2) items idx ver oldest sys ok show ?thesis by blast
qed

theorem C3_push_always_succeeds_witness:
  "SPMCQ_new \<lparr>elem_size = 128, mem_free = 4096\<rparr> (0::int) 2
     = Inr \<lparr>spmc_capacity = 2, spmc_items = replicate 2 \<lparr>data = 0, version = 0\<rparr>,
            mReadIndex = 0, mWriteIndex = 0\<rparr> \<and>
   (\<exists>p' q'. spmc_push
        (queue (snd (sys_run 0 (sys_new \<lparr>spmc_capacity = 2,
                      spmc_items = replicate 2 \<lparr>data = 0::int, version = 0\<rparr>,
                      mReadIndex = 0, mWriteIndex = 0\<rparr>) [SysPush 5])))
        (producer (snd (sys_run 0 (sys_new \<lparr>spmc_capacity = 2,
                      spmc_items = replicate 2 \<lparr>data = 0::int, version = 0\<rparr>,
                      mReadIndex = 0, mWriteIndex = 0\<rparr>) [SysPush 5]))) 6
      = (True, p', q') \<and>
      spmc_items q' = [\<lparr>data = 5, version = 0\<rparr>, \<lparr>data = 6, version = 0\<rparr>] \<and>
      lWriteIdx p' = 0 \<and> prod_lVersion p' = 1)"
proof -
  let ?Q = "\<lparr>spmc_capacity = 2, spmc_items = replicate 2 \<lparr>data = 0::int, version = 0\<rparr>,
            mReadIndex = 0, mWriteIndex = 0\<rparr>"
  let ?s = "snd (sys_run 0 (sys_new ?Q) [SysPush 5])"
  have 1: "SPMCQ_new \<lparr>elem_size = 128, mem_free = 4096\<rparr> (0::int) 2 = Inr ?Q" by code_simp
  have 2: "sys_run 0 (sys_new ?Q) [SysPush 5]
      = (fst (sys_run 0 (sys_new ?Q) [SysPush 5]), ?s)" by simp
  have 3: "spmc_items (queue ?s) = [\<lparr>data = 5, version = 0\<rparr>, \<lparr>data = 0, version = 0\<rparr>]"
    by code_simp
  have 4: "lWriteIdx (producer ?s) = 1" by code_simp
  have 5: "prod_lVersion (producer ?s) = 0" by code_simp
  from C3_push_always_succeeds [OF 1 2, of 6] obtain p' q'
    where a: "spmc_push (queue ?s) (producer ?s) 6 = (True, p', q')"
      and b: "spmc_items q' = (spmc_items (queue ?s))[unat (lWriteIdx (producer ?s)) :=
                              \<lparr>data = 6, version = prod_lVersion (producer ?s)\<rparr>]"
      and c: "unat (lWriteIdx p') = (unat (lWriteIdx (producer ?s)) + 1) mod unat (2::size_t)"
      and d: "prod_lVersion p' = prod_lVersion (producer ?s)
              + (if unat (lWriteIdx (producer ?s)) + 1 = unat (2::size_t) then 1 else 0)"
    by blast
  have b': "spmc_items q' = [\<lparr>data = 5, version = 0\<rparr>, \<lparr>data = 6, version = 0\<rparr>]"
    unfolding b 3 4 5 by simp
  have c': "lWriteIdx p' = 0" using c unfolding 4 by (simp add: unat_eq_0)
  have d': "prod_lVersion p' = 1" unfolding d 4 5 by simp
  from 1 a b' c' d' show ?thesis by blast
qed

lemma push_stores_eq:
  "push_stores p v =
     [StoreWriteIndex ((lWriteIdx p + 1) AND (prod_capacity p - 1)),
      StoreItem (lWriteIdx p) \<lparr>data = v, version = prod_lVersion p\<rparr>,
      StoreReadIndex ((lWriteIdx p + 1) AND (prod_capacity p - 1))]"
  by (simp add: push_stores_def Let_def)

lemma push_upto_eq:
  "push_upto 0 q p v = q"
  "push_upto (Suc 0) q p v = q\<lparr>mWriteIndex := (lWriteIdx p + 1) AND (prod_capacity p - 1)\<rparr>"
  "push_upto 2 q p v
     = q\<lparr>mWriteIndex := (lWriteIdx p + 1) AND (prod_capacity p - 1),
         spmc_items := (spmc_items q)[unat (lWriteIdx p) := \<lparr>data = v, version = prod_lVersion p\<rparr>]\<rparr>"
  "push_upto 3 q p v = snd (snd (spmc_push q p v))"
  by (simp_all add: push_upto_def push_stores_eq spmc_push_eq numeral_2_eq_2 numeral_3_eq_3)

lemma le_2_cases: "n \<le> (2::nat) \<Longrightarrow> n = 0 \<or> n = Suc 0 \<or> n = 2"
  by arith

text \<open>A store to \<open>mWriteIndex\<close>, or to the slot under the published cursor, is seen by no pop.\<close>

lemma spmc_pop_unpublished:
  "spmc_pop (q\<lparr>mWriteIndex := a\<rparr>) c x = spmc_pop q c x"
  "spmc_pop (q\<lparr>mWriteIndex := a, spmc_items := (spmc_items q)[unat (mReadIndex q) := e]\<rparr>) c x
     = spmc_pop q c x"
proof -
  show "spmc_pop (q\<lparr>mWriteIndex := a\<rparr>) c x = spmc_pop q c x" by (simp add: spmc_pop_def)
  show "spmc_pop (q\<lparr>mWriteIndex := a, spmc_items := (spmc_items q)[unat (mReadIndex q) := e]\<rparr>) c x
     = spmc_pop q c x"
  proof (cases "lReadIdx c = mReadIndex q")
    case True
    then show ?thesis by (simp add: spmc_pop_def)
  next
    case False
    then have "unat (mReadIndex q) \<noteq> unat (lReadIdx c)" by (simp add: word_unat_eq_iff)
    then show ?thesis using False by (simp add: spmc_pop_def)
  qed
qed

text \<open>The pop of a consumer that waits at the producer's position, before and after a push.\<close>

lemma spmc_pop_at_cursor:
  assumes inv: "spmc_inv W q p"
    and c: "cons_capacity c = spmc_capacity q" "lReadIdx c = lWriteIdx p"
           "cons_lVersion c = prod_lVersion p"
  shows "spmc_pop q c x = Inr (False, x, c)"
    and "spmc_pop (snd (snd (spmc_push q p v))) c x
           = Inr (True, v, c\<lparr>lReadIdx := lWriteIdx (fst (snd (spmc_push q p v))),
                              cons_lVersion := prod_lVersion (fst (snd (spmc_push q p v)))\<rparr>)"
proof -
  from inv have cap: "pow2_ge2 (spmc_capacity q)" and pc: "prod_capacity p = spmc_capacity q"
    and mr: "mReadIndex q = lWriteIdx p"
    unfolding spmc_inv_def by blast+
  note lt = spmc_inv_idx [OF inv]
  show "spmc_pop q c x = Inr (False, x, c)" by (simp add: spmc_pop_def c(2) mr)
  have ne: "(lWriteIdx p + 1) AND (spmc_capacity q - 1) \<noteq> lWriteIdx p"
    by (rule idx_next_neq [OF cap lt(1)])
  show "spmc_pop (snd (snd (spmc_push q p v))) c x
           = Inr (True, v, c\<lparr>lReadIdx := lWriteIdx (fst (snd (spmc_push q p v))),
                              cons_lVersion := prod_lVersion (fst (snd (spmc_push q p v)))\<rparr>)"
    using ne [symmetric] lt(2) by (simp add: spmc_push_eq spmc_pop_def Let_def c pc)
qed

text \<open>
  Claim C5.  A \<^verbatim>\<open>push\<close> makes three stores, in program order.  Until the third is made, every
  \<^verbatim>\<open>pop\<close> on every consumer handle returns what it returned before the push began: the first
  two stores publish nothing to consumers.  After the second store the slot holds the new
  value and version while the cursor that \<^verbatim>\<open>pop\<close> compares with (\<open>mReadIndex\<close>) is unchanged;
  the third store moves that cursor to the next index, and a consumer waiting at the
  producer's position, told that the queue is empty until then, now pops the new value.  So
  exactly one store of a push changes what pops observe, it is the last one, and in no
  state during the push has the cursor moved while the slot lacks the new value.  (The
  first store, to \<open>mWriteIndex\<close>, is read by the queue's own \<^verbatim>\<open>empty()\<close>, \<^verbatim>\<open>size()\<close> and
  \<^verbatim>\<open>full()\<close> only: after it \<^verbatim>\<open>empty()\<close> is false although the slot is not yet written.)
\<close>

theorem C5_publish_after_payload:
  assumes "SPMCQ_new h t0 cap = Inr q0" and "sys_run out (sys_new q0) ops = (es, s)"
  shows "length (push_stores (producer s) v) = 3 \<and>
         push_upto 3 (queue s) (producer s) v = snd (snd (spmc_push (queue s) (producer s) v)) \<and>
         (\<forall>n\<le>2. \<forall>c x. spmc_pop (push_upto n (queue s) (producer s) v) c x
                         = spmc_pop (queue s) c x) \<and>
         spmc_items (push_upto 2 (queue s) (producer s) v) ! unat (lWriteIdx (producer s))
           = \<lparr>data = v, version = prod_lVersion (producer s)\<rparr> \<and>
         mReadIndex (push_upto 2 (queue s) (producer s) v) = mReadIndex (queue s) \<and>
         mReadIndex (push_upto 3 (queue s) (producer s) v) \<noteq> mReadIndex (queue s) \<and>
         mReadIndex (push_upto 3 (queue s) (producer s) v)
           = (lWriteIdx (producer s) + 1) AND (cap - 1) \<and>
         (\<forall>c x. cons_capacity c = cap \<and> lReadIdx c = lWriteIdx (producer s) \<and>
                 cons_lVersion c = prod_lVersion (producer s) \<longrightarrow>
                 spmc_pop (push_upto 2 (queue s) (producer s) v) c x = Inr (False, x, c) \<and>
                 spmc_pop (push_upto 3 (queue s) (producer s) v) c x
                   = Inr (True, v,
                          c\<lparr>lReadIdx := lWriteIdx (fst (snd (spmc_push (queue s) (producer s) v))),
                            cons_lVersion :=
                              prod_lVersion (fst (snd (spmc_push (queue s) (producer s) v)))\<rparr>)) \<and>
         filter (\<lambda>n. \<exists>c x. spmc_pop (push_upto (Suc n) (queue s) (producer s) v) c x
                           \<noteq> spmc_pop (push_upto n (queue s) (producer s) v) c x)
                [0..<length (push_stores (producer s) v)] = [2] \<and>
         (\<forall>n\<le>3. mReadIndex (push_upto n (queue s) (producer s) v) = mReadIndex (queue s) \<or>
                  spmc_items (push_upto n (queue s) (producer s) v) ! unat (lWriteIdx (producer s))
                    = \<lparr>data = v, version = prod_lVersion (producer s)\<rparr>) \<and>
         \<not> spmc_empty (push_upto 1 (queue s) (producer s) v) \<and>
         spmc_items (push_upto 1 (queue s) (producer s) v) = spmc_items (queue s)"
proof -
  note inv = sys_reach_inv [OF assms]
  let ?q = "queue s" and ?p = "producer s"
  let ?e = "\<lparr>data = v, version = prod_lVersion ?p\<rparr>"
  let ?U = "\<lambda>n. push_upto n ?q ?p v"
  from inv(1) have cap: "pow2_ge2 (spmc_capacity ?q)" and pc: "prod_capacity ?p = spmc_capacity ?q"
    and mr: "mReadIndex ?q = lWriteIdx ?p" and mw: "mWriteIndex ?q = lWriteIdx ?p"
    unfolding spmc_inv_def by blast+
  note lt = spmc_inv_idx [OF inv(1)]
  have ne: "(lWriteIdx ?p + 1) AND (cap - 1) \<noteq> lWriteIdx ?p"
    using idx_next_neq [OF cap lt(1)] inv(2) by simp
  have A: "length (push_stores ?p v) = 3" by (simp add: push_stores_eq)
  have B: "?U 3 = snd (snd (spmc_push ?q ?p v))" by (rule push_upto_eq(4))
  have C: "spmc_pop (?U n) c x = spmc_pop ?q c x" if "n \<le> 2" for n c x
  proof -
    from that have "n = 0 \<or> n = Suc 0 \<or> n = 2" by (rule le_2_cases)
    then show ?thesis
      using spmc_pop_unpublished [where q = ?q and c = c and x = x] by (auto simp: push_upto_eq mr [symmetric])
  qed
  have D: "spmc_items (?U 2) ! unat (lWriteIdx ?p) = ?e" using lt(2) by (simp add: push_upto_eq)
  have E: "mReadIndex (?U 2) = mReadIndex ?q" by (simp add: push_upto_eq)
  have F: "mReadIndex (?U 3) = (lWriteIdx ?p + 1) AND (cap - 1)"
    by (simp add: push_upto_eq spmc_push_eq pc inv(2))
  have G: "mReadIndex (?U 3) \<noteq> mReadIndex ?q" unfolding F mr by (rule ne)
  have H: "spmc_pop (?U 2) c x = Inr (False, x, c) \<and>
           spmc_pop (?U 3) c x
             = Inr (True, v, c\<lparr>lReadIdx := lWriteIdx (fst (snd (spmc_push ?q ?p v))),
                         cons_lVersion := prod_lVersion (fst (snd (spmc_push ?q ?p v)))\<rparr>)"
    if "cons_capacity c = cap \<and> lReadIdx c = lWriteIdx ?p \<and> cons_lVersion c = prod_lVersion ?p"
    for c x
  proof -
    from that have c: "cons_capacity c = spmc_capacity ?q" "lReadIdx c = lWriteIdx ?p"
      "cons_lVersion c = prod_lVersion ?p" using inv(2) by simp_all
    from spmc_pop_at_cursor [OF inv(1) c] C [of 2 c x] show ?thesis unfolding B by simp
  qed
  let ?c = "\<lparr>cons_capacity = cap, lReadIdx = lWriteIdx ?p, cons_lVersion = prod_lVersion ?p\<rparr>"
  have seen: "\<exists>c x. spmc_pop (?U (Suc 2)) c x \<noteq> spmc_pop (?U 2) c x"
  proof -
    from H [of ?c t0] have "spmc_pop (?U 3) ?c t0 \<noteq> spmc_pop (?U 2) ?c t0" by simp
    moreover have "Suc 2 = 3" by simp
    ultimately show ?thesis by metis
  qed
  have unseen: "\<not> (\<exists>c x. spmc_pop (?U (Suc n)) c x \<noteq> spmc_pop (?U n) c x)" if "n < 2" for n
    using that C [of n] C [of "Suc n"] by simp
  have I: "filter (\<lambda>n. \<exists>c x. spmc_pop (?U (Suc n)) c x \<noteq> spmc_pop (?U n) c x)
             [0..<length (push_stores ?p v)] = [2]"
  proof -
    have "[0..<length (push_stores ?p v)] = [0, Suc 0, 2]"
      unfolding A by (simp add: numeral_3_eq_3 numeral_2_eq_2 upt_rec)
    then show ?thesis using seen unseen [of 0] unseen [of "Suc 0"] by simp
  qed
  have J: "mReadIndex (?U n) = mReadIndex ?q \<or> spmc_items (?U n) ! unat (lWriteIdx ?p) = ?e"
    if "n \<le> 3" for n
  proof (cases "n = 3")
    case True
    then show ?thesis using lt(2) by (simp add: push_upto_eq spmc_push_eq)
  next
    case False
    with that have "n \<le> 2" by simp
    then have "n = 0 \<or> n = Suc 0 \<or> n = 2" by (rule le_2_cases)
    then show ?thesis by (auto simp: push_upto_eq)
  qed
  have K: "\<not> spmc_empty (?U 1)" using ne by (simp add: push_upto_eq spmc_empty_def mr pc inv(2))
  have L: "spmc_items (?U 1) = spmc_items ?q" by (simp add: push_upto_eq)
  from C have C': "\<forall>n\<le>2. \<forall>c x. spmc_pop (?U n) c x = spmc_pop ?q c x" by blast
  from H have H': "\<forall>c x. cons_capacity c = cap \<and> lReadIdx c = lWriteIdx ?p \<and>
                 cons_lVersion c = prod_lVersion ?p \<longrightarrow>
                 spmc_pop (?U 2) c x = Inr (False, x, c) \<and>
                 spmc_pop (?U 3) c x
                   = Inr (True, v, c\<lparr>lReadIdx := lWriteIdx (fst (snd (spmc_push ?q ?p v))),
                         cons_lVersion := prod_lVersion (fst (snd (spmc_push ?q ?p v)))\<rparr>)" by blast
  from J have J': "\<forall>n\<le>3. mReadIndex (?U n) = mReadIndex ?q \<or>
      spmc_items (?U n) ! unat (lWriteIdx ?p) = ?e" by blast
  show ?thesis
    by (rule conjI [OF A conjI [OF B conjI [OF C' conjI [OF D conjI [OF E conjI [OF G
          conjI [OF F conjI [OF H' conjI [OF I conjI [OF J' conjI [OF K L]]]]]]]]]]])
qed


theorem C5_publish_after_payload_witness:
  "SPMCQ_new \<lparr>elem_size = 128, mem_free = 4096\<rparr> (0::int) 2
     = Inr \<lparr>spmc_capacity = 2, spmc_items = replicate 2 \<lparr>data = 0, version = 0\<rparr>,
            mReadIndex = 0, mWriteIndex = 0\<rparr> \<and>
   sys_run 0 (sys_new \<lparr>spmc_capacity = 2,
                        spmc_items = replicate 2 \<lparr>data = 0::int, version = 0\<rparr>,
                        mReadIndex = 0, mWriteIndex = 0\<rparr>) [SysPush 5]
     = ([EvPush 5 True],
        \<lparr>queue = \<lparr>spmc_capacity = 2,
                   spmc_items = [\<lparr>data = 5, version = 0\<rparr>, \<lparr>data = 0, version = 0\<rparr>],
                   mReadIndex = 1, mWriteIndex = 1\<rparr>,
         producer = \<lparr>prod_capacity = 2, lWriteIdx = 1, prod_lVersion = 0\<rparr>,
         consumers = []\<rparr>) \<and>
   push_upto 2 \<lparr>spmc_capacity = 2,
                spmc_items = [\<lparr>data = 5::int, version = 0\<rparr>, \<lparr>data = 0, version = 0\<rparr>],
                mReadIndex = 1, mWriteIndex = 1\<rparr>
               \<lparr>prod_capacity = 2, lWriteIdx = 1, prod_lVersion = 0\<rparr> 6
     = \<lparr>spmc_capacity = 2,
        spmc_items = [\<lparr>data = 5, version = 0\<rparr>, \<lparr>data = 6, version = 0\<rparr>],
        mReadIndex = 1, mWriteIndex = 0\<rparr> \<and>
   spmc_pop (push_upto 2 \<lparr>spmc_capacity = 2,
                spmc_items = [\<lparr>data = 5::int, version = 0\<rparr>, \<lparr>data = 0, version = 0\<rparr>],
                mReadIndex = 1, mWriteIndex = 1\<rparr>
               \<lparr>prod_capacity = 2, lWriteIdx = 1, prod_lVersion = 0\<rparr> 6)
            \<lparr>cons_capacity = 2, lReadIdx = 1, cons_lVersion = 0\<rparr> 0
     = Inr (False, 0, \<lparr>cons_capacity = 2, lReadIdx = 1, cons_lVersion = 0\<rparr>) \<and>
   spmc_pop (push_upto 3 \<lparr>spmc_capacity = 2,
                spmc_items = [\<lparr>data = 5::int, version = 0\<rparr>, \<lparr>data = 0, version = 0\<rparr>],
                mReadIndex = 1, mWriteIndex = 1\<rparr>
               \<lparr>prod_capacity = 2, lWriteIdx = 1, prod_lVersion = 0\<rparr> 6)
            \<lparr>cons_capacity = 2, lReadIdx = 1, cons_lVersion = 0\<rparr> 0
     = Inr (True, 6, \<lparr>cons_capacity = 2, lReadIdx = 0, cons_lVersion = 1\<rparr>)"
proof -
  let ?Q = "\<lparr>spmc_capacity = 2, spmc_items = replicate 2 \<lparr>data = 0::int, version = 0\<rparr>,
            mReadIndex = 0, mWriteIndex = 0\<rparr>"
  let ?q = "\<lparr>spmc_capacity = 2,
             spmc_items = [\<lparr>data = 5::int, version = 0\<rparr>, \<lparr>data = 0, version = 0\<rparr>],
             mReadIndex = 1, mWriteIndex = 1\<rparr>"
  let ?p = "\<lparr>prod_capacity = 2, lWriteIdx = 1, prod_lVersion = 0\<rparr>"
  let ?c = "\<lparr>cons_capacity = 2, lReadIdx = 1, cons_lVersion = 0\<rparr>"
  have 1: "SPMCQ_new \<lparr>elem_size = 128, mem_free = 4096\<rparr> (0::int) 2 = Inr ?Q" by code_simp
  have 2: "sys_run 0 (sys_new ?Q) [SysPush 5]
      = ([EvPush 5 True], \<lparr>queue = ?q, producer = ?p, consumers = []\<rparr>)"
    by (simp add: sys_new_def getProducer_def spmc_push_eq numeral_2_eq_2)
  have 3: "push_upto 2 ?q ?p 6
      = \<lparr>spmc_capacity = 2,
         spmc_items = [\<lparr>data = 5, version = 0\<rparr>, \<lparr>data = 6, version = 0\<rparr>],
         mReadIndex = 1, mWriteIndex = 0\<rparr>"
    by (simp add: push_upto_eq)
  have 4: "fst (snd (spmc_push ?q ?p (6::int)))
      = \<lparr>prod_capacity = 2, lWriteIdx = 0, prod_lVersion = 1\<rparr>"
    by (simp add: spmc_push_eq)
  have prem: "cons_capacity ?c = 2 \<and> lReadIdx ?c = lWriteIdx ?p \<and>
      cons_lVersion ?c = prod_lVersion ?p" by simp
  note T = C5_publish_after_payload [OF 1 2, of 6, unfolded spmc_sys.select_convs]
  note H = T [THEN conjunct2, THEN conjunct2, THEN conjunct2, THEN conjunct2, THEN conjunct2,
              THEN conjunct2, THEN conjunct2, THEN conjunct1, rule_format, OF prem, of 0]
  from H have 5: "spmc_pop (push_upto 2 ?q ?p 6) ?c 0 = Inr (False, 0, ?c)"
    and 6: "spmc_pop (push_upto 3 ?q ?p 6) ?c 0
        = Inr (True, 6, \<lparr>cons_capacity = 2, lReadIdx = 0, cons_lVersion = 1\<rparr>)"
    unfolding 4 by simp_all
  show ?thesis by (rule conjI [OF 1 conjI [OF 2 conjI [OF 3 conjI [OF 5 6]]]])
qed

lemma pushes_append: "pushes (xs @ ys) = pushes xs @ pushes ys"
proof (induction xs)
  case Nil
  then show ?case by simp
next
  case (Cons e xs)
  then show ?case by (cases e) simp_all
qed

lemma pops_append: "pops i (xs @ ys) = pops i xs @ pops i ys"
proof (induction xs)
  case Nil
  then show ?case by simp
next
  case (Cons e xs)
  then show ?case by (cases e) simp_all
qed

text \<open>
  One call, seen from handle \<open>i\<close> standing at counter \<open>r\<close>, when fewer than \<open>capacity\<close> values
  are pending for it if the call is one of its pops.
\<close>

lemma sys_step_follow:
  assumes step: "sys_step out x s = (e, s')"
    and inv: "spmc_inv W (queue s) (producer s)"
    and tr: "tracks (spmc_capacity (queue s)) r i (consumers s)"
    and rw: "r \<le> length W"
    and lag: "pop_of i e \<longrightarrow> length W < r + unat (spmc_capacity (queue s))"
  shows "e \<noteq> EvOverlapped i \<and>
         tracks (spmc_capacity (queue s)) (r + length (pops i [e])) i (consumers s') \<and>
         r + length (pops i [e]) \<le> length W \<and>
         pops i [e] = take (length (pops i [e])) (drop r W) \<and>
         (e = EvPopEmpty i \<longrightarrow> r = length W)"
proof (cases x)
  case (SysPush v)
  then show ?thesis using step tr rw by (auto simp: spmc_push_eq)
next
  case SysGetConsumer
  then have e: "e = EvGetConsumer (length (consumers s))"
    and s': "consumers s' = consumers s @ [getConsumer (queue s)]" using step by auto
  have "tracks (spmc_capacity (queue s)) r i (consumers s @ [getConsumer (queue s)])"
    using tr cons_at_new [of "queue s"]
    by (auto simp: tracks_def nth_append less_Suc_eq)
  then show ?thesis using rw by (simp add: e s')
next
  case (SysPop j)
  show ?thesis
  proof (cases "j < length (consumers s)")
    case False
    then show ?thesis using step SysPop tr rw by auto
  next
    case jlt: True
    show ?thesis
    proof (cases "j = i")
      case False
      have "pops i [e] = []" and "consumers s' ! i = consumers s ! i"
        and "length (consumers s') = length (consumers s)"
        and "e \<noteq> EvOverlapped i" and "e \<noteq> EvPopEmpty i"
        using step SysPop jlt False by (auto split: sum.splits prod.splits if_splits)
      then show ?thesis using tr rw by (simp add: tracks_def)
    next
      case True
      let ?c = "consumers s ! i"
      let ?C = "unat (spmc_capacity (queue s))"
      from jlt True tr have at: "cons_at (spmc_capacity (queue s)) r ?c"
        by (simp add: tracks_def)
      have "pop_of i e"
        using step SysPop jlt True by (auto split: sum.splits prod.splits if_splits)
      with lag have near: "length W < r + ?C" by simp
      show ?thesis
      proof (cases "lReadIdx ?c = mReadIndex (queue s)")
        case eq: True
        then have "spmc_pop (queue s) ?c out = Inr (False, out, ?c)" by (simp add: spmc_pop_def)
        then have e: "e = EvPopEmpty i" and s': "s' = s\<lparr>consumers := (consumers s)[i := ?c]\<rparr>"
          using step SysPop jlt True by auto
        from eq have "r mod ?C = length W mod ?C" using spmc_pop_empty_iff [OF inv at] by simp
        from mod_inj_window [OF this rw near] have "r = length W" .
        then show ?thesis using tr by (simp add: e s' tracks_def)
      next
        case ne: False
        then have "r \<noteq> length W" using spmc_pop_empty_iff [OF inv at] by auto
        with rw have rlt: "r < length W" by simp
        from near have near': "length W \<le> r + ?C" by simp
        from spmc_pop_ok [OF inv at ne rlt near', of out] obtain c'
          where pop: "spmc_pop (queue s) ?c out = Inr (True, W ! r, c')"
            and at': "cons_at (spmc_capacity (queue s)) (Suc r) c'" by blast
        from pop have e: "e = EvPopOk i (W ! r)"
          and s': "s' = s\<lparr>consumers := (consumers s)[i := c']\<rparr>"
          using step SysPop jlt True by auto
        show ?thesis using rlt at' jlt True
          by (simp add: e s' tracks_def take_Suc_conv_app_nth)
      qed
    qed
  qed
qed

lemma sys_run_follow:
  "sys_run out s ops = (es, s') \<Longrightarrow>
   spmc_inv W (queue s) (producer s) \<Longrightarrow>
   tracks (spmc_capacity (queue s)) r i (consumers s) \<Longrightarrow>
   r \<le> length W \<Longrightarrow>
   \<forall>n<length es. pop_of i (es ! n) \<longrightarrow>
      length W + length (pushes (take n es))
        < r + length (pops i (take n es)) + unat (spmc_capacity (queue s)) \<Longrightarrow>
   EvOverlapped i \<notin> set es \<and>
   pops i es = take (length (pops i es)) (drop r (W @ pushes es)) \<and>
   tracks (spmc_capacity (queue s)) (r + length (pops i es)) i (consumers s') \<and>
   r + length (pops i es) \<le> length (W @ pushes es) \<and>
   (\<forall>n<length es. es ! n = EvPopEmpty i \<longrightarrow>
      r + length (pops i (take n es)) = length W + length (pushes (take n es)))"
proof (induction ops arbitrary: s W r es)
  case Nil
  then show ?case by simp
next
  case (Cons x xs)
  let ?cap = "spmc_capacity (queue s)"
  obtain e s1 where st: "sys_step out x s = (e, s1)" by (cases "sys_step out x s")
  obtain es1 where run: "sys_run out s1 xs = (es1, s')" and es: "es = e # es1"
    using Cons.prems(1) st by (auto split: prod.splits)
  have pe: "pushes es = pushes [e] @ pushes es1" unfolding es by (rule pushes_Cons)
  have po: "pops i es = pops i [e] @ pops i es1" unfolding es by (rule pops_Cons)
  note lag = Cons.prems(5) [rule_format]
  have lag0: "pop_of i e \<longrightarrow> length W < r + unat ?cap"
    using lag [of 0] by (simp add: es)
  have lag1: "length (W @ pushes [e]) + length (pushes (take n es1))
        < r + length (pops i [e]) + length (pops i (take n es1)) + unat ?cap"
    if "n < length es1" "pop_of i (es1 ! n)" for n
    using lag [of "Suc n"] that
    by (simp add: es pushes_Cons [of e "take n es1"] pops_Cons [of i e "take n es1"])
  note i1 = sys_step_inv [OF st Cons.prems(2)]
  from sys_step_follow [OF st Cons.prems(2,3,4) lag0]
  have nov: "e \<noteq> EvOverlapped i"
    and t1: "tracks ?cap (r + length (pops i [e])) i (consumers s1)"
    and r1: "r + length (pops i [e]) \<le> length W"
    and p1: "pops i [e] = take (length (pops i [e])) (drop r W)"
    and e1: "e = EvPopEmpty i \<longrightarrow> r = length W" by blast+
  have r1': "r + length (pops i [e]) \<le> length (W @ pushes [e])" using r1 by simp
  have lag1': "\<forall>n<length es1. pop_of i (es1 ! n) \<longrightarrow>
      length (W @ pushes [e]) + length (pushes (take n es1))
        < r + length (pops i [e]) + length (pops i (take n es1)) + unat (spmc_capacity (queue s1))"
    using lag1 by (simp add: i1(2))
  from Cons.IH [OF run i1(1) t1 [folded i1(2)] r1' lag1']
  have nov2: "EvOverlapped i \<notin> set es1"
    and p2: "pops i es1 = take (length (pops i es1))
              (drop (r + length (pops i [e])) ((W @ pushes [e]) @ pushes es1))"
    and t2: "tracks ?cap (r + length (pops i [e]) + length (pops i es1)) i (consumers s')"
    and r2: "r + length (pops i [e]) + length (pops i es1) \<le> length ((W @ pushes [e]) @ pushes es1)"
    and e2: "\<forall>n<length es1. es1 ! n = EvPopEmpty i \<longrightarrow>
        r + length (pops i [e]) + length (pops i (take n es1))
          = length (W @ pushes [e]) + length (pushes (take n es1))"
    by (simp_all add: i1(2))
  have "pops i [e] @ pops i es1
        = take (length (pops i [e] @ pops i es1)) (drop r (W @ pushes [e] @ pushes es1))"
    by (rule take_drop_chain [OF p1 r1 p2 [unfolded append_assoc]])
  then have A: "pops i es = take (length (pops i es)) (drop r (W @ pushes es))"
    unfolding pe po .
  have B: "tracks ?cap (r + length (pops i es)) i (consumers s')"
    using t2 unfolding po by (simp only: length_append add.assoc)
  have C: "r + length (pops i es) \<le> length (W @ pushes es)"
    using r2 unfolding po pe by (simp only: length_append append_assoc add.assoc)
  have D: "EvOverlapped i \<notin> set es" using nov nov2 by (auto simp: es)
  have E: "r + length (pops i (take n es)) = length W + length (pushes (take n es))"
    if "n < length es" "es ! n = EvPopEmpty i" for n
  proof (cases n)
    case 0
    then show ?thesis using that e1 by (simp add: es)
  next
    case (Suc m)
    then have "m < length es1" "es1 ! m = EvPopEmpty i" using that by (simp_all add: es)
    with e2 have "r + length (pops i [e]) + length (pops i (take m es1))
          = length (W @ pushes [e]) + length (pushes (take m es1))" by blast
    then show ?thesis
      by (simp add: Suc es pushes_Cons [of e "take m es1"] pops_Cons [of i e "take m es1"])
  qed
  from A B C D E show ?case by blast
qed

text \<open>A handle with fewer than \<open>capacity\<close> values pending pops them all, in order.\<close>

lemma sys_drain:
  "spmc_inv W (queue s) (producer s) \<Longrightarrow> i < length (consumers s) \<Longrightarrow>
   cons_at (spmc_capacity (queue s)) r (consumers s ! i) \<Longrightarrow>
   r + k = length W \<Longrightarrow> k < unat (spmc_capacity (queue s)) \<Longrightarrow>
   \<exists>s'. sys_run out s (replicate k (SysPop i)) = (map (EvPopOk i) (drop r W), s')"
proof (induction k arbitrary: r s)
  case 0
  then show ?case by simp
next
  case (Suc k)
  let ?c = "consumers s ! i"
  let ?C = "unat (spmc_capacity (queue s))"
  have rlt: "r < length W" and near: "length W \<le> r + ?C" using Suc.prems(4,5) by simp_all
  have "r mod ?C \<noteq> (r + Suc k) mod ?C" using Suc.prems(5) by (intro mod_add_neq) simp_all
  then have ne: "lReadIdx ?c \<noteq> mReadIndex (queue s)"
    using spmc_pop_empty_iff [OF Suc.prems(1,3)] Suc.prems(4) by simp
  from spmc_pop_ok [OF Suc.prems(1,3) ne rlt near, of out] obtain c'
    where pop: "spmc_pop (queue s) ?c out = Inr (True, W ! r, c')"
      and at': "cons_at (spmc_capacity (queue s)) (Suc r) c'" by blast
  let ?s1 = "s\<lparr>consumers := (consumers s)[i := c']\<rparr>"
  have st: "sys_step out (SysPop i) s = (EvPopOk i (W ! r), ?s1)"
    using pop Suc.prems(2) by simp
  have "\<exists>s'. sys_run out ?s1 (replicate k (SysPop i)) = (map (EvPopOk i) (drop (Suc r) W), s')"
  proof (rule Suc.IH)
    show "spmc_inv W (queue ?s1) (producer ?s1)" using Suc.prems(1) by simp
    show "i < length (consumers ?s1)" using Suc.prems(2) by simp
    show "cons_at (spmc_capacity (queue ?s1)) (Suc r) (consumers ?s1 ! i)"
      using at' Suc.prems(2) by simp
    show "Suc r + k = length W" using Suc.prems(4) by simp
    show "k < unat (spmc_capacity (queue ?s1))" using Suc.prems(5) by simp
  qed
  then obtain s' where
    "sys_run out ?s1 (replicate k (SysPop i)) = (map (EvPopOk i) (drop (Suc r) W), s')" by blast
  moreover have "drop r W = W ! r # drop (Suc r) W" using rlt by (simp add: Cons_nth_drop_Suc)
  ultimately show ?case using st by (simp del: sys_step.simps)
qed


lemma prefix_cut:
  assumes "a @ a' = take (length (a @ a')) (b @ b')" and "length a = length b"
  shows "a = b"
proof -
  have "b @ b' = (a @ a') @ drop (length (a @ a')) (b @ b')"
    using assms(1) by (metis append_take_drop_id)
  then have "b @ b' = a @ (a' @ drop (length (a @ a')) (b @ b'))" by simp
  with assms(2) show ?thesis by (simp add: append_eq_append_conv)
qed

lemma ball_upt: "\<forall>n\<in>set [0..<k]. P n \<Longrightarrow> \<forall>n<k. P n"
  by simp

text \<open>
  Claim C4 says a new consumer starts at the producer's cursor and, absent \<open>Overlapped\<close>, pops
  exactly the values pushed after its creation.  It does not start there: after one push of
  7 the cursor is 1, a consumer obtained then has read index 0, and its first \<^verbatim>\<open>pop\<close>
  delivers the 7 pushed before it existed.  And the absence of \<open>Overlapped\<close> is not enough:
  with capacity 2, a consumer obtained before any push that pops after every second push
  finds its read index equal to the cursor each time, is told that the queue is empty, and
  receives none of the four values, with no \<open>Overlapped\<close>.
\<close>

theorem C4_counterexample:
  "SPMCQ_new \<lparr>elem_size = 128, mem_free = 4096\<rparr> (0::int) 4
     = Inr \<lparr>spmc_capacity = 4, spmc_items = replicate 4 \<lparr>data = 0, version = 0\<rparr>,
            mReadIndex = 0, mWriteIndex = 0\<rparr> \<and>
   fst (sys_run 0 (sys_new \<lparr>spmc_capacity = 4,
                            spmc_items = replicate 4 \<lparr>data = 0::int, version = 0\<rparr>,
                            mReadIndex = 0, mWriteIndex = 0\<rparr>)
          [SysPush 7, SysGetConsumer, SysPop 0])
     = [EvPush 7 True, EvGetConsumer 0, EvPopOk 0 7] \<and>
   lReadIdx (consumers (snd (sys_run 0 (sys_new \<lparr>spmc_capacity = 4,
                            spmc_items = replicate 4 \<lparr>data = 0::int, version = 0\<rparr>,
                            mReadIndex = 0, mWriteIndex = 0\<rparr>)
          [SysPush 7, SysGetConsumer])) ! 0) = 0 \<and>
   mReadIndex (queue (snd (sys_run 0 (sys_new \<lparr>spmc_capacity = 4,
                            spmc_items = replicate 4 \<lparr>data = 0::int, version = 0\<rparr>,
                            mReadIndex = 0, mWriteIndex = 0\<rparr>)
          [SysPush 7, SysGetConsumer]))) = 1 \<and>
   SPMCQ_new \<lparr>elem_size = 128, mem_free = 4096\<rparr> (0::int) 2
     = Inr \<lparr>spmc_capacity = 2, spmc_items = replicate 2 \<lparr>data = 0, version = 0\<rparr>,
            mReadIndex = 0, mWriteIndex = 0\<rparr> \<and>
   fst (sys_run 0 (sys_new \<lparr>spmc_capacity = 2,
                            spmc_items = replicate 2 \<lparr>data = 0::int, version = 0\<rparr>,
                            mReadIndex = 0, mWriteIndex = 0\<rparr>)
          [SysGetConsumer, SysPush 1, SysPush 2, SysPop 0, SysPush 3, SysPush 4, SysPop 0])
     = [EvGetConsumer 0, EvPush 1 True, EvPush 2 True, EvPopEmpty 0,
        EvPush 3 True, EvPush 4 True, EvPopEmpty 0]"
proof -
  have rep: "replicate 4 x = [x, x, x, x]" "replicate 2 x = [x, x]" for x :: "int SPMCQEntry"
    by (simp_all add: numeral_eq_Suc)
  have 1: "SPMCQ_new \<lparr>elem_size = 128, mem_free = 4096\<rparr> (0::int) 4
     = Inr \<lparr>spmc_capacity = 4, spmc_items = replicate 4 \<lparr>data = 0, version = 0\<rparr>,
            mReadIndex = 0, mWriteIndex = 0\<rparr>" by code_simp
  have 2: "SPMCQ_new \<lparr>elem_size = 128, mem_free = 4096\<rparr> (0::int) 2
     = Inr \<lparr>spmc_capacity = 2, spmc_items = replicate 2 \<lparr>data = 0, version = 0\<rparr>,
            mReadIndex = 0, mWriteIndex = 0\<rparr>" by code_simp
  show ?thesis
    unfolding 1 2
    by (simp add: sys_new_def getProducer_def getConsumer_def spmc_push_eq spmc_pop_def rep)
qed

text \<open>
  Claim C4, amended.  Every handle from \<^verbatim>\<open>getConsumer\<close> starts at read index 0 with version 0,
  wherever the producer is.  For each handle on its own, whatever other handles do: if at
  each of its pops fewer than \<open>capacity\<close> values are pending for it (pushed since the queue
  was constructed and not yet popped by it), then none of its pops raises \<open>Overlapped\<close>; the
  values it has popped are, in order, the first values pushed since the queue was
  constructed, those pushed before the handle was created included; a \<^verbatim>\<open>pop\<close> returns false
  only when the handle has popped exactly the values pushed so far; and when fewer than
  \<open>capacity\<close> values are pending at the end, that many further pops deliver exactly them, so
  that the handle has then popped exactly the sequence pushed.
\<close>

theorem C4_consumer_from_slot_zero:
  assumes "SPMCQ_new h t0 cap = Inr q0" and "sys_run out (sys_new q0) ops = (es, s)"
    and "\<forall>n<length es. pop_of i (es ! n) \<longrightarrow>
           length (pushes (take n es)) < length (pops i (take n es)) + unat cap"
  shows "lReadIdx (getConsumer (queue s)) = 0 \<and> cons_lVersion (getConsumer (queue s)) = 0 \<and>
         EvOverlapped i \<notin> set es \<and>
         pops i es = take (length (pops i es)) (pushes es) \<and>
         (\<forall>n<length es. es ! n = EvPopEmpty i \<longrightarrow> pops i (take n es) = pushes (take n es)) \<and>
         (i < length (consumers s) \<and> length (pushes es) < length (pops i es) + unat cap \<longrightarrow>
            (\<exists>s'. sys_run out s (replicate (length (pushes es) - length (pops i es)) (SysPop i))
                    = (map (EvPopOk i) (drop (length (pops i es)) (pushes es)), s')))"
proof -
  let ?s0 = "sys_new q0"
  have inv0: "spmc_inv [] (queue ?s0) (producer ?s0)"
    using spmc_inv_new(1) [OF assms(1)] by (simp add: sys_new_def)
  have cap0: "spmc_capacity (queue ?s0) = cap"
    using spmc_inv_new(2) [OF assms(1)] by (simp add: sys_new_def)
  have tr0: "tracks (spmc_capacity (queue ?s0)) 0 i (consumers ?s0)"
    by (simp add: tracks_def sys_new_def)
  have lag: "\<forall>n<length es. pop_of i (es ! n) \<longrightarrow>
      length ([]::'a list) + length (pushes (take n es))
        < 0 + length (pops i (take n es)) + unat (spmc_capacity (queue ?s0))"
    using assms(3) cap0 by simp
  note inv = sys_reach_inv [OF assms(1,2)]
  from sys_run_follow [OF assms(2) inv0 tr0 _ lag]
  have A: "EvOverlapped i \<notin> set es"
    and B: "pops i es = take (length (pops i es)) (pushes es)"
    and tr: "tracks cap (length (pops i es)) i (consumers s)"
    and le: "length (pops i es) \<le> length (pushes es)"
    and em: "\<forall>n<length es. es ! n = EvPopEmpty i \<longrightarrow>
               length (pops i (take n es)) = length (pushes (take n es))"
    by (simp_all add: cap0)
  have C: "pops i (take n es) = pushes (take n es)" if "n < length es" "es ! n = EvPopEmpty i" for n
  proof -
    from that em have len: "length (pops i (take n es)) = length (pushes (take n es))" by blast
    have "pops i (take n es) @ pops i (drop n es)
        = take (length (pops i (take n es) @ pops i (drop n es)))
            (pushes (take n es) @ pushes (drop n es))"
      using B by (simp only: pops_append [symmetric] pushes_append [symmetric] append_take_drop_id)
    from prefix_cut [OF this len] show ?thesis .
  qed
  have D: "\<exists>s'. sys_run out s (replicate (length (pushes es) - length (pops i es)) (SysPop i))
                    = (map (EvPopOk i) (drop (length (pops i es)) (pushes es)), s')"
    if "i < length (consumers s) \<and> length (pushes es) < length (pops i es) + unat cap"
  proof (rule sys_drain [OF inv(1)])
    show "i < length (consumers s)" using that by simp
    show "cons_at (spmc_capacity (queue s)) (length (pops i es)) (consumers s ! i)"
      using tr that by (simp add: tracks_def inv(2))
    show "length (pops i es) + (length (pushes es) - length (pops i es)) = length (pushes es)"
      using le by simp
    show "length (pushes es) - length (pops i es) < unat (spmc_capacity (queue s))"
      unfolding inv(2) using that le by arith
  qed
  have E: "lReadIdx (getConsumer (queue s)) = 0 \<and> cons_lVersion (getConsumer (queue s)) = 0"
    by (simp add: getConsumer_def)
  from A B C D E show ?thesis by blast
qed

theorem C4_consumer_from_slot_zero_witness:
  "SPMCQ_new \<lparr>elem_size = 128, mem_free = 4096\<rparr> (0::int) 4
     = Inr \<lparr>spmc_capacity = 4, spmc_items = replicate 4 \<lparr>data = 0, version = 0\<rparr>,
            mReadIndex = 0, mWriteIndex = 0\<rparr> \<and>
   fst (sys_run 0 (sys_new \<lparr>spmc_capacity = 4,
                            spmc_items = replicate 4 \<lparr>data = 0::int, version = 0\<rparr>,
                            mReadIndex = 0, mWriteIndex = 0\<rparr>)
          [SysPush 7, SysGetConsumer, SysPush 8, SysPop 0, SysPop 0, SysPop 0, SysPush 9])
     = [EvPush 7 True, EvGetConsumer 0, EvPush 8 True, EvPopOk 0 7, EvPopOk 0 8, EvPopEmpty 0,
        EvPush 9 True] \<and>
   EvOverlapped 0 \<notin> set [EvPush (7::int) True, EvGetConsumer 0, EvPush 8 True, EvPopOk 0 7,
                          EvPopOk 0 8, EvPopEmpty 0, EvPush 9 True] \<and>
   pops 0 (take 5 [EvPush (7::int) True, EvGetConsumer 0, EvPush 8 True, EvPopOk 0 7,
                   EvPopOk 0 8, EvPopEmpty 0, EvPush 9 True])
     = pushes (take 5 [EvPush (7::int) True, EvGetConsumer 0, EvPush 8 True, EvPopOk 0 7,
                       EvPopOk 0 8, EvPopEmpty 0, EvPush 9 True]) \<and>
   (\<exists>s'. sys_run 0 (snd (sys_run 0 (sys_new \<lparr>spmc_capacity = 4,
                            spmc_items = replicate 4 \<lparr>data = 0::int, version = 0\<rparr>,
                            mReadIndex = 0, mWriteIndex = 0\<rparr>)
          [SysPush 7, SysGetConsumer, SysPush 8, SysPop 0, SysPop 0, SysPop 0, SysPush 9]))
        [SysPop 0] = ([EvPopOk 0 9], s'))"
proof -
  let ?Q = "\<lparr>spmc_capacity = 4, spmc_items = replicate 4 \<lparr>data = 0::int, version = 0\<rparr>,
            mReadIndex = 0, mWriteIndex = 0\<rparr>"
  let ?ops = "[SysPush (7::int), SysGetConsumer, SysPush 8, SysPop 0, SysPop 0, SysPop 0,
               SysPush 9]"
  let ?es = "[EvPush (7::int) True, EvGetConsumer 0, EvPush 8 True, EvPopOk 0 7, EvPopOk 0 8,
              EvPopEmpty 0, EvPush 9 True]"
  let ?s = "snd (sys_run 0 (sys_new ?Q) ?ops)"
  have rep: "replicate 4 x = [x, x, x, x]" for x :: "int SPMCQEntry"
    by (simp add: numeral_eq_Suc)
  have 1: "SPMCQ_new \<lparr>elem_size = 128, mem_free = 4096\<rparr> (0::int) 4 = Inr ?Q" by code_simp
  have 3: "fst (sys_run 0 (sys_new ?Q) ?ops) = ?es"
    by (simp add: sys_new_def getProducer_def getConsumer_def spmc_push_eq spmc_pop_def rep)
  have 2: "sys_run 0 (sys_new ?Q) ?ops = (?es, ?s)"
    using 3 by (metis prod.collapse)
  have 4: "\<forall>n<length ?es. pop_of 0 (?es ! n) \<longrightarrow>
      length (pushes (take n ?es)) < length (pops 0 (take n ?es)) + unat (4::size_t)"
  proof -
    have "\<forall>n\<in>set [0..<length ?es]. pop_of 0 (?es ! n) \<longrightarrow>
      length (pushes (take n ?es)) < length (pops 0 (take n ?es)) + unat (4::size_t)"
      by code_simp
    then show ?thesis by (rule ball_upt)
  qed
  have 5: "length (consumers ?s) = 1"
    by (simp add: sys_new_def getProducer_def getConsumer_def spmc_push_eq spmc_pop_def rep)
  note T = C4_consumer_from_slot_zero [OF 1 2 4]
  have a: "EvOverlapped 0 \<notin> set ?es" using T by blast
  have b: "pops 0 (take 5 ?es) = pushes (take 5 ?es)"
    using T [THEN conjunct2, THEN conjunct2, THEN conjunct2, THEN conjunct2, THEN conjunct1,
             rule_format, of 5] by simp
  have 6: "0 < length (consumers ?s) \<and> length (pushes ?es) < length (pops 0 ?es) + unat (4::size_t)"
    using 5 by simp
  have e1: "replicate (length (pushes ?es) - length (pops 0 ?es)) (SysPop 0) = [SysPop 0]"
    by simp
  have e2: "map (EvPopOk 0) (drop (length (pops 0 ?es)) (pushes ?es)) = [EvPopOk 0 9]"
    by simp
  have c: "\<exists>s'. sys_run 0 ?s [SysPop 0] = ([EvPopOk 0 9], s')"
    using T [THEN conjunct2, THEN conjunct2, THEN conjunct2, THEN conjunct2, THEN conjunct2,
             rule_format, OF 6]
    unfolding e1 e2 .
  show ?thesis by (rule conjI [OF 1 conjI [OF 3 conjI [OF a conjI [OF b c]]]])
qed

text \<open>
  Claim C1 says \<^verbatim>\<open>pop\<close> raises \<open>Overlapped\<close> exactly when the slot's version differs from
  the expected one.  With capacity 2, after four pushes a new consumer has read index 0,
  equal to the cursor, and slot 0 carries version 1, not 0: \<^verbatim>\<open>pop\<close> returns false and
  raises nothing.
\<close>

theorem C1_counterexample:
  "SPMCQ_new \<lparr>elem_size = 128, mem_free = 4096\<rparr> (0::int) 2
     = Inr \<lparr>spmc_capacity = 2, spmc_items = replicate 2 \<lparr>data = 0, version = 0\<rparr>,
            mReadIndex = 0, mWriteIndex = 0\<rparr> \<and>
   fst (sys_run 0 (sys_new \<lparr>spmc_capacity = 2,
                            spmc_items = replicate 2 \<lparr>data = 0::int, version = 0\<rparr>,
                            mReadIndex = 0, mWriteIndex = 0\<rparr>)
          [SysPush 1, SysPush 2, SysPush 3, SysPush 4, SysGetConsumer])
     = [EvPush 1 True, EvPush 2 True, EvPush 3 True, EvPush 4 True, EvGetConsumer 0] \<and>
   snd (sys_run 0 (sys_new \<lparr>spmc_capacity = 2,
                            spmc_items = replicate 2 \<lparr>data = 0::int, version = 0\<rparr>,
                            mReadIndex = 0, mWriteIndex = 0\<rparr>)
          [SysPush 1, SysPush 2, SysPush 3, SysPush 4, SysGetConsumer])
     = \<lparr>queue = \<lparr>spmc_capacity = 2,
                  spmc_items = [\<lparr>data = 3, version = 1\<rparr>, \<lparr>data = 4, version = 1\<rparr>],
                  mReadIndex = 0, mWriteIndex = 0\<rparr>,
        producer = \<lparr>prod_capacity = 2, lWriteIdx = 0, prod_lVersion = 2\<rparr>,
        consumers = [\<lparr>cons_capacity = 2, lReadIdx = 0, cons_lVersion = 0\<rparr>]\<rparr> \<and>
   version ([\<lparr>data = 3::int, version = 1\<rparr>, \<lparr>data = 4, version = 1\<rparr>] ! unat (0::size_t))
     \<noteq> cons_lVersion \<lparr>cons_capacity = 2, lReadIdx = 0, cons_lVersion = 0\<rparr> \<and>
   spmc_pop \<lparr>spmc_capacity = 2,
             spmc_items = [\<lparr>data = 3::int, version = 1\<rparr>, \<lparr>data = 4, version = 1\<rparr>],
             mReadIndex = 0, mWriteIndex = 0\<rparr>
            \<lparr>cons_capacity = 2, lReadIdx = 0, cons_lVersion = 0\<rparr> 9
     = Inr (False, 9, \<lparr>cons_capacity = 2, lReadIdx = 0, cons_lVersion = 0\<rparr>)"
proof -
  let ?Q = "\<lparr>spmc_capacity = 2, spmc_items = replicate 2 \<lparr>data = 0::int, version = 0\<rparr>,
            mReadIndex = 0, mWriteIndex = 0\<rparr>"
  let ?S = "\<lparr>queue = \<lparr>spmc_capacity = 2,
                  spmc_items = [\<lparr>data = 3::int, version = 1\<rparr>, \<lparr>data = 4, version = 1\<rparr>],
                  mReadIndex = 0, mWriteIndex = 0\<rparr>,
        producer = \<lparr>prod_capacity = 2, lWriteIdx = 0, prod_lVersion = 2\<rparr>,
        consumers = [\<lparr>cons_capacity = 2, lReadIdx = 0, cons_lVersion = 0\<rparr>]\<rparr>"
  have r: "sys_run 0 (sys_new ?Q) [SysPush 1, SysPush 2, SysPush 3, SysPush 4, SysGetConsumer]
      = ([EvPush 1 True, EvPush 2 True, EvPush 3 True, EvPush 4 True, EvGetConsumer 0], ?S)"
    by (simp add: sys_new_def getProducer_def getConsumer_def spmc_push_eq numeral_2_eq_2)
  have v: "version ([\<lparr>data = 3::int, version = 1\<rparr>, \<lparr>data = 4, version = 1\<rparr>] ! unat (0::size_t))
     \<noteq> cons_lVersion \<lparr>cons_capacity = 2, lReadIdx = 0, cons_lVersion = 0\<rparr>"
    by simp
  have p: "spmc_pop \<lparr>spmc_capacity = 2,
             spmc_items = [\<lparr>data = 3::int, version = 1\<rparr>, \<lparr>data = 4, version = 1\<rparr>],
             mReadIndex = 0, mWriteIndex = 0\<rparr>
            \<lparr>cons_capacity = 2, lReadIdx = 0, cons_lVersion = 0\<rparr> 9
     = Inr (False, 9, \<lparr>cons_capacity = 2, lReadIdx = 0, cons_lVersion = 0\<rparr>)"
    by (simp add: spmc_pop_def)
  have n: "SPMCQ_new \<lparr>elem_size = 128, mem_free = 4096\<rparr> (0::int) 2 = Inr ?Q" by code_simp
  show ?thesis unfolding r using n v p by simp
qed

lemma spmc_pop_wf:
  assumes "spmc_pop q c item = Inr (ok, o', c')" and "pow2_ge2 cap" and "cons_wf cap c"
  shows "cons_wf cap c'"
proof (cases ok)
  case False
  then have "c' = c" using assms(1) by (auto simp: spmc_pop_def Let_def split: if_splits)
  then show ?thesis using assms(3) by simp
next
  case True
  then have c': "c' = c\<lparr>lReadIdx := (lReadIdx c + 1) AND (cons_capacity c - 1),
       cons_lVersion := cons_lVersion c + (if lReadIdx c + 1 = cons_capacity c then 1 else 0)\<rparr>"
    using assms(1) by (auto simp: spmc_pop_def Let_def split: if_splits)
  have cc: "cons_capacity c = cap" using assms(3) by (simp add: cons_wf_def)
  have "0 < unat cap" using pow2_ge2_ge2 [OF assms(2)] by simp
  then have "unat ((lReadIdx c + 1) AND (cap - 1)) < unat cap"
    by (simp add: idx_next [OF assms(2)])
  then show ?thesis by (simp add: cons_wf_def c' cc)
qed

lemma sys_step_wf:
  assumes "sys_step out x s = (e, s')"
    and "pow2_ge2 (spmc_capacity (queue s))"
    and "\<forall>c\<in>set (consumers s). cons_wf (spmc_capacity (queue s)) c"
  shows "\<forall>c\<in>set (consumers s'). cons_wf (spmc_capacity (queue s)) c"
proof (cases x)
  case (SysPush v)
  then have "consumers s' = consumers s" using assms(1) by (auto split: prod.splits)
  then show ?thesis using assms(3) by simp
next
  case SysGetConsumer
  then have "consumers s' = consumers s @ [getConsumer (queue s)]" using assms(1) by auto
  moreover have "0 < unat (spmc_capacity (queue s))" using pow2_ge2_ge2 [OF assms(2)] by simp
  ultimately show ?thesis using assms(3) by (simp add: getConsumer_def cons_wf_def)
next
  case (SysPop j)
  show ?thesis
  proof (cases "j < length (consumers s)")
    case False
    then have "s' = s" using assms(1) SysPop by simp
    then show ?thesis using assms(3) by simp
  next
    case True
    show ?thesis
    proof (cases "spmc_pop (queue s) (consumers s ! j) out")
      case (Inl a)
      then have "s' = s" using assms(1) SysPop True by simp
      then show ?thesis using assms(3) by simp
    next
      case (Inr b)
      obtain ok o' c' where b: "b = (ok, o', c')" by (cases b)
      have "cons_wf (spmc_capacity (queue s)) (consumers s ! j)" using assms(3) True by simp
      from spmc_pop_wf [OF Inr [unfolded b] assms(2) this]
      have cc: "cons_wf (spmc_capacity (queue s)) c'" .
      have s': "consumers s' = (consumers s)[j := c']"
        using assms(1) SysPop True Inr b by auto
      have "set (consumers s') \<subseteq> insert c' (set (consumers s))"
        unfolding s' by (rule set_update_subset_insert)
      then show ?thesis using assms(3) cc by auto
    qed
  qed
qed

lemma sys_run_wf:
  "sys_run out s ops = (es, s') \<Longrightarrow> spmc_inv W (queue s) (producer s) \<Longrightarrow>
   \<forall>c\<in>set (consumers s). cons_wf (spmc_capacity (queue s)) c \<Longrightarrow>
   \<forall>c\<in>set (consumers s'). cons_wf (spmc_capacity (queue s)) c"
proof (induction ops arbitrary: s W es)
  case Nil
  then show ?case by simp
next
  case (Cons x xs)
  obtain e s1 where st: "sys_step out x s = (e, s1)" by (cases "sys_step out x s")
  obtain es1 where run: "sys_run out s1 xs = (es1, s')"
    using Cons.prems(1) st by (auto split: prod.splits)
  note i1 = sys_step_inv [OF st Cons.prems(2)]
  have c: "pow2_ge2 (spmc_capacity (queue s))" using Cons.prems(2) unfolding spmc_inv_def by blast
  note w1 = sys_step_wf [OF st c Cons.prems(3)]
  from Cons.IH [OF run i1(1) w1 [folded i1(2)]] show ?case unfolding i1(2) .
qed

lemma sys_reach_wf:
  assumes "SPMCQ_new h t0 cap = Inr q0" and "sys_run out (sys_new q0) ops = (es, s)"
  shows "\<forall>c\<in>set (consumers s). cons_wf cap c"
proof -
  have inv0: "spmc_inv [] (queue (sys_new q0)) (producer (sys_new q0))"
    using spmc_inv_new(1) [OF assms(1)] by (simp add: sys_new_def)
  have "\<forall>c\<in>set (consumers (sys_new q0)). cons_wf (spmc_capacity (queue (sys_new q0))) c"
    by (simp add: sys_new_def)
  from sys_run_wf [OF assms(2) inv0 this] show ?thesis
    using spmc_inv_new(2) [OF assms(1)] by (simp add: sys_new_def)
qed

text \<open>
  Claim C1, amended.  In every reachable state and for every consumer handle, the read
  index is inside the buffer, and: \<^verbatim>\<open>pop\<close> returns false exactly when the local read index
  equals the published cursor, and then changes nothing.  It raises \<open>Overlapped\<close> exactly
  when the read index differs from the cursor and the slot there stores a version other
  than the expected one.  Otherwise it returns true with the slot's value, the read index
  advanced by one modulo the capacity and the expected version raised by one exactly on
  wrap.  In no case does it change the queue, the producer or another consumer handle.
\<close>

theorem C1_pop_amended:
  assumes "SPMCQ_new h t0 cap = Inr q0" and "sys_run out (sys_new q0) ops = (es, s)"
    and "i < length (consumers s)"
  shows "let q = queue s; c = consumers s ! i; slot = spmc_items q ! unat (lReadIdx c) in
     unat (lReadIdx c) < length (spmc_items q) \<and>
     ((\<exists>o' c'. spmc_pop q c item = Inr (False, o', c')) \<longleftrightarrow> lReadIdx c = mReadIndex q) \<and>
     (lReadIdx c = mReadIndex q \<longrightarrow> spmc_pop q c item = Inr (False, item, c)) \<and>
     ((\<exists>e. spmc_pop q c item = Inl e) \<longleftrightarrow>
        lReadIdx c \<noteq> mReadIndex q \<and> version slot \<noteq> cons_lVersion c) \<and>
     (\<forall>e. spmc_pop q c item = Inl e \<longrightarrow> e = Overlapped (lReadIdx c)) \<and>
     (lReadIdx c \<noteq> mReadIndex q \<and> version slot = cons_lVersion c \<longrightarrow>
        (\<exists>c'. spmc_pop q c item = Inr (True, data slot, c') \<and>
              cons_capacity c' = cons_capacity c \<and>
              unat (lReadIdx c') = (unat (lReadIdx c) + 1) mod unat cap \<and>
              cons_lVersion c'
                = cons_lVersion c + (if unat (lReadIdx c) + 1 = unat cap then 1 else 0))) \<and>
     (\<forall>e s'. sys_step out (SysPop i) s = (e, s') \<longrightarrow>
        queue s' = queue s \<and> producer s' = producer s \<and>
        length (consumers s') = length (consumers s) \<and>
        (\<forall>j. j \<noteq> i \<longrightarrow> consumers s' ! j = consumers s ! j))"
proof -
  let ?q = "queue s" and ?c = "consumers s ! i"
  let ?slot = "spmc_items ?q ! unat (lReadIdx ?c)"
  let ?c' = "?c\<lparr>lReadIdx := (lReadIdx ?c + 1) AND (cons_capacity ?c - 1),
               cons_lVersion := cons_lVersion ?c
                  + (if lReadIdx ?c + 1 = cons_capacity ?c then 1 else 0)\<rparr>"
  note inv = sys_reach_inv [OF assms(1,2)]
  from inv(1) have c: "pow2_ge2 (spmc_capacity ?q)"
    and len: "length (spmc_items ?q) = unat (spmc_capacity ?q)"
    unfolding spmc_inv_def by blast+
  have wf: "cons_wf cap ?c" using sys_reach_wf [OF assms(1,2)] assms(3) by simp
  then have cc: "cons_capacity ?c = cap" and lt: "unat (lReadIdx ?c) < unat cap"
    by (simp_all add: cons_wf_def)
  have c': "pow2_ge2 cap" using c inv(2) by simp
  have pop: "spmc_pop ?q ?c item =
      (if lReadIdx ?c = mReadIndex ?q then Inr (False, item, ?c)
       else if version ?slot \<noteq> cons_lVersion ?c then Inl (Overlapped (lReadIdx ?c))
       else Inr (True, data ?slot, ?c'))"
    by (simp add: spmc_pop_def Let_def)
  have Z: "unat (lReadIdx ?c) < length (spmc_items ?q)" using lt len inv(2) by simp
  have A: "(\<exists>o' c'. spmc_pop ?q ?c item = Inr (False, o', c')) \<longleftrightarrow> lReadIdx ?c = mReadIndex ?q"
    unfolding pop by simp
  have B: "lReadIdx ?c = mReadIndex ?q \<longrightarrow> spmc_pop ?q ?c item = Inr (False, item, ?c)"
    unfolding pop by simp
  have C: "(\<exists>e. spmc_pop ?q ?c item = Inl e) \<longleftrightarrow>
      lReadIdx ?c \<noteq> mReadIndex ?q \<and> version ?slot \<noteq> cons_lVersion ?c"
    unfolding pop by simp
  have D: "\<forall>e. spmc_pop ?q ?c item = Inl e \<longrightarrow> e = Overlapped (lReadIdx ?c)"
    unfolding pop by simp
  have wrap: "lReadIdx ?c + 1 = cons_capacity ?c \<longleftrightarrow> unat (lReadIdx ?c) + 1 = unat cap"
    unfolding cc using idx_succ_eq_cap [OF c' lt] by simp
  have E: "lReadIdx ?c \<noteq> mReadIndex ?q \<and> version ?slot = cons_lVersion ?c \<longrightarrow>
        (\<exists>c'. spmc_pop ?q ?c item = Inr (True, data ?slot, c') \<and>
              cons_capacity c' = cons_capacity ?c \<and>
              unat (lReadIdx c') = (unat (lReadIdx ?c) + 1) mod unat cap \<and>
              cons_lVersion c'
                = cons_lVersion ?c + (if unat (lReadIdx ?c) + 1 = unat cap then 1 else 0))"
  proof
    assume h: "lReadIdx ?c \<noteq> mReadIndex ?q \<and> version ?slot = cons_lVersion ?c"
    have 1: "spmc_pop ?q ?c item = Inr (True, data ?slot, ?c')" unfolding pop using h by simp
    have 2: "cons_capacity ?c' = cons_capacity ?c" by simp
    have 3: "unat (lReadIdx ?c') = (unat (lReadIdx ?c) + 1) mod unat cap"
      by (simp add: cc idx_next [OF c'])
    have 4: "cons_lVersion ?c'
        = cons_lVersion ?c + (if unat (lReadIdx ?c) + 1 = unat cap then 1 else 0)"
      using wrap by simp
    from 1 2 3 4 show "\<exists>c'. spmc_pop ?q ?c item = Inr (True, data ?slot, c') \<and>
              cons_capacity c' = cons_capacity ?c \<and>
              unat (lReadIdx c') = (unat (lReadIdx ?c) + 1) mod unat cap \<and>
              cons_lVersion c'
                = cons_lVersion ?c + (if unat (lReadIdx ?c) + 1 = unat cap then 1 else 0)"
      by (intro exI [of _ ?c'] conjI)
  qed
  have F: "\<forall>e s'. sys_step out (SysPop i) s = (e, s') \<longrightarrow>
        queue s' = queue s \<and> producer s' = producer s \<and>
        length (consumers s') = length (consumers s) \<and>
        (\<forall>j. j \<noteq> i \<longrightarrow> consumers s' ! j = consumers s ! j)"
    by (auto split: if_splits sum.splits prod.splits)
  note all = conjI [OF Z conjI [OF A conjI [OF B conjI [OF C conjI [OF D conjI [OF E F]]]]]]
  show ?thesis unfolding Let_def by (rule all)
qed


theorem C1_pop_amended_witness:
  "SPMCQ_new \<lparr>elem_size = 128, mem_free = 4096\<rparr> (0::int) 4
     = Inr \<lparr>spmc_capacity = 4, spmc_items = replicate 4 \<lparr>data = 0, version = 0\<rparr>,
            mReadIndex = 0, mWriteIndex = 0\<rparr> \<and>
   sys_run 0 (sys_new \<lparr>spmc_capacity = 4,
                       spmc_items = replicate 4 \<lparr>data = 0::int, version = 0\<rparr>,
                       mReadIndex = 0, mWriteIndex = 0\<rparr>)
       [SysGetConsumer, SysGetConsumer, SysPush 1, SysPush 2, SysPop 1, SysPop 1]
     = ([EvGetConsumer 0, EvGetConsumer 1, EvPush 1 True, EvPush 2 True, EvPopOk 1 1,
         EvPopOk 1 2],
        \<lparr>queue = \<lparr>spmc_capacity = 4,
                   spmc_items = [\<lparr>data = 1, version = 0\<rparr>, \<lparr>data = 2, version = 0\<rparr>,
                                 \<lparr>data = 0, version = 0\<rparr>, \<lparr>data = 0, version = 0\<rparr>],
                   mReadIndex = 2, mWriteIndex = 2\<rparr>,
         producer = \<lparr>prod_capacity = 4, lWriteIdx = 2, prod_lVersion = 0\<rparr>,
         consumers = [\<lparr>cons_capacity = 4, lReadIdx = 0, cons_lVersion = 0\<rparr>,
                      \<lparr>cons_capacity = 4, lReadIdx = 2, cons_lVersion = 0\<rparr>]\<rparr>) \<and>
   spmc_pop \<lparr>spmc_capacity = 4,
             spmc_items = [\<lparr>data = 1::int, version = 0\<rparr>, \<lparr>data = 2, version = 0\<rparr>,
                           \<lparr>data = 0, version = 0\<rparr>, \<lparr>data = 0, version = 0\<rparr>],
             mReadIndex = 2, mWriteIndex = 2\<rparr>
            \<lparr>cons_capacity = 4, lReadIdx = 2, cons_lVersion = 0\<rparr> 9
     = Inr (False, 9, \<lparr>cons_capacity = 4, lReadIdx = 2, cons_lVersion = 0\<rparr>) \<and>
   (\<exists>c'. spmc_pop \<lparr>spmc_capacity = 4,
             spmc_items = [\<lparr>data = 1::int, version = 0\<rparr>, \<lparr>data = 2, version = 0\<rparr>,
                           \<lparr>data = 0, version = 0\<rparr>, \<lparr>data = 0, version = 0\<rparr>],
             mReadIndex = 2, mWriteIndex = 2\<rparr>
            \<lparr>cons_capacity = 4, lReadIdx = 0, cons_lVersion = 0\<rparr> 9
       = Inr (True, 1, c') \<and> unat (lReadIdx c') = 1 \<and> cons_lVersion c' = 0) \<and>
   SPMCQ_new \<lparr>elem_size = 128, mem_free = 4096\<rparr> (0::int) 2
     = Inr \<lparr>spmc_capacity = 2, spmc_items = replicate 2 \<lparr>data = 0, version = 0\<rparr>,
            mReadIndex = 0, mWriteIndex = 0\<rparr> \<and>
   sys_run 0 (sys_new \<lparr>spmc_capacity = 2,
                       spmc_items = replicate 2 \<lparr>data = 0::int, version = 0\<rparr>,
                       mReadIndex = 0, mWriteIndex = 0\<rparr>)
       [SysGetConsumer, SysPush 1, SysPush 2, SysPush 3]
     = ([EvGetConsumer 0, EvPush 1 True, EvPush 2 True, EvPush 3 True],
        \<lparr>queue = \<lparr>spmc_capacity = 2,
                   spmc_items = [\<lparr>data = 3, version = 1\<rparr>, \<lparr>data = 2, version = 0\<rparr>],
                   mReadIndex = 1, mWriteIndex = 1\<rparr>,
         producer = \<lparr>prod_capacity = 2, lWriteIdx = 1, prod_lVersion = 1\<rparr>,
         consumers = [\<lparr>cons_capacity = 2, lReadIdx = 0, cons_lVersion = 0\<rparr>]\<rparr>) \<and>
   spmc_pop \<lparr>spmc_capacity = 2,
             spmc_items = [\<lparr>data = 3::int, version = 1\<rparr>, \<lparr>data = 2, version = 0\<rparr>],
             mReadIndex = 1, mWriteIndex = 1\<rparr>
            \<lparr>cons_capacity = 2, lReadIdx = 0, cons_lVersion = 0\<rparr> 9
     = Inl (Overlapped 0)"
proof -
  let ?Q4 = "\<lparr>spmc_capacity = 4, spmc_items = replicate 4 \<lparr>data = 0::int, version = 0\<rparr>,
             mReadIndex = 0, mWriteIndex = 0\<rparr>"
  let ?Q2 = "\<lparr>spmc_capacity = 2, spmc_items = replicate 2 \<lparr>data = 0::int, version = 0\<rparr>,
             mReadIndex = 0, mWriteIndex = 0\<rparr>"
  let ?A = "\<lparr>spmc_capacity = 4,
             spmc_items = [\<lparr>data = 1::int, version = 0\<rparr>, \<lparr>data = 2, version = 0\<rparr>,
                           \<lparr>data = 0, version = 0\<rparr>, \<lparr>data = 0, version = 0\<rparr>],
             mReadIndex = 2, mWriteIndex = 2\<rparr>"
  let ?B = "\<lparr>spmc_capacity = 2,
             spmc_items = [\<lparr>data = 3::int, version = 1\<rparr>, \<lparr>data = 2, version = 0\<rparr>],
             mReadIndex = 1, mWriteIndex = 1\<rparr>"
  let ?a0 = "\<lparr>cons_capacity = 4, lReadIdx = 0, cons_lVersion = 0\<rparr>"
  let ?a1 = "\<lparr>cons_capacity = 4, lReadIdx = 2, cons_lVersion = 0\<rparr>"
  let ?b0 = "\<lparr>cons_capacity = 2, lReadIdx = 0, cons_lVersion = 0\<rparr>"
  let ?SA = "\<lparr>queue = ?A, producer = \<lparr>prod_capacity = 4, lWriteIdx = 2, prod_lVersion = 0\<rparr>,
             consumers = [?a0, ?a1]\<rparr>"
  let ?SB = "\<lparr>queue = ?B, producer = \<lparr>prod_capacity = 2, lWriteIdx = 1, prod_lVersion = 1\<rparr>,
             consumers = [?b0]\<rparr>"
  let ?opsA = "[SysGetConsumer, SysGetConsumer, SysPush (1::int), SysPush 2, SysPop 1, SysPop 1]"
  let ?esA = "[EvGetConsumer 0, EvGetConsumer 1, EvPush (1::int) True, EvPush 2 True,
               EvPopOk 1 1, EvPopOk 1 2]"
  let ?opsB = "[SysGetConsumer, SysPush (1::int), SysPush 2, SysPush 3]"
  let ?esB = "[EvGetConsumer 0, EvPush (1::int) True, EvPush 2 True, EvPush 3 True]"
  have n4: "SPMCQ_new \<lparr>elem_size = 128, mem_free = 4096\<rparr> (0::int) 4 = Inr ?Q4" by code_simp
  have n2: "SPMCQ_new \<lparr>elem_size = 128, mem_free = 4096\<rparr> (0::int) 2 = Inr ?Q2" by code_simp
  have rep: "replicate 4 x = [x, x, x, x]" "replicate 2 x = [x, x]" for x :: "int SPMCQEntry"
    by (simp_all add: numeral_eq_Suc)
  have rA: "sys_run 0 (sys_new ?Q4) ?opsA = (?esA, ?SA)"
    by (simp add: sys_new_def getProducer_def getConsumer_def spmc_push_eq spmc_pop_def rep)
  have rB: "sys_run 0 (sys_new ?Q2) ?opsB = (?esB, ?SB)"
    by (simp add: sys_new_def getProducer_def getConsumer_def spmc_push_eq rep)
  have iA1: "1 < length (consumers ?SA)" and iA0: "0 < length (consumers ?SA)"
    and iB0: "0 < length (consumers ?SB)" by simp_all
  note tA1 = C1_pop_amended [OF n4 rA iA1, of 9, unfolded Let_def]
  note tA0 = C1_pop_amended [OF n4 rA iA0, of 9, unfolded Let_def]
  note tB0 = C1_pop_amended [OF n2 rB iB0, of 9, unfolded Let_def]
  have hA1: "lReadIdx (consumers ?SA ! 1) = mReadIndex (queue ?SA)" by simp
  have hA0: "lReadIdx (consumers ?SA ! 0) \<noteq> mReadIndex (queue ?SA) \<and>
      version (spmc_items (queue ?SA) ! unat (lReadIdx (consumers ?SA ! 0)))
        = cons_lVersion (consumers ?SA ! 0)" by simp
  have hB0: "lReadIdx (consumers ?SB ! 0) \<noteq> mReadIndex (queue ?SB) \<and>
      version (spmc_items (queue ?SB) ! unat (lReadIdx (consumers ?SB ! 0)))
        \<noteq> cons_lVersion (consumers ?SB ! 0)" by simp
  from tA1 [THEN conjunct2, THEN conjunct2, THEN conjunct1, rule_format, OF hA1]
  have a: "spmc_pop ?A ?a1 9 = Inr (False, 9, ?a1)" by simp
  from tA0 [THEN conjunct2, THEN conjunct2, THEN conjunct2, THEN conjunct2, THEN conjunct2,
            THEN conjunct1, rule_format, OF hA0]
  obtain c' where "spmc_pop (queue ?SA) (consumers ?SA ! 0) 9
        = Inr (True, data (spmc_items (queue ?SA) ! unat (lReadIdx (consumers ?SA ! 0))), c')"
    and "unat (lReadIdx c') = (unat (lReadIdx (consumers ?SA ! 0)) + 1) mod unat (4::size_t)"
    and "cons_lVersion c' = cons_lVersion (consumers ?SA ! 0)
        + (if unat (lReadIdx (consumers ?SA ! 0)) + 1 = unat (4::size_t) then 1 else 0)"
    by blast
  then have "spmc_pop ?A ?a0 9 = Inr (True, 1, c') \<and> unat (lReadIdx c') = 1 \<and>
                cons_lVersion c' = 0" by simp
  then have b: "\<exists>c'. spmc_pop ?A ?a0 9 = Inr (True, 1, c') \<and> unat (lReadIdx c') = 1 \<and>
                cons_lVersion c' = 0" ..
  from tB0 [THEN conjunct2, THEN conjunct2, THEN conjunct2, THEN conjunct1] hB0
  obtain e where e: "spmc_pop (queue ?SB) (consumers ?SB ! 0) 9 = Inl e" by blast
  from tB0 [THEN conjunct2, THEN conjunct2, THEN conjunct2, THEN conjunct2, THEN conjunct1,
            rule_format, OF e]
  have "e = Overlapped (lReadIdx (consumers ?SB ! 0))" .
  with e have c: "spmc_pop ?B ?b0 9 = Inl (Overlapped 0)" by simp
  from n4 rA a b n2 rB c show ?thesis by (intro conjI)
qed

section \<open>SPMC: resynchronising a consumer\<close>

text \<open>A run of pushes only.\<close>

lemma sys_run_pushes:
  "spmc_inv W (queue s) (producer s) \<Longrightarrow>
   \<exists>s'. sys_run out s (map SysPush vs) = (map (\<lambda>v. EvPush v True) vs, s') \<and>
        spmc_inv (W @ vs) (queue s') (producer s') \<and>
        consumers s' = consumers s \<and> spmc_capacity (queue s') = spmc_capacity (queue s)"
proof (induction vs arbitrary: s W)
  case Nil
  then show ?case by simp
next
  case (Cons v vs)
  from spmc_push_inv [OF Cons.prems, of v] obtain p' q'
    where p: "spmc_push (queue s) (producer s) v = (True, p', q')"
      and i: "spmc_inv (W @ [v]) q' p'" and c: "spmc_capacity q' = spmc_capacity (queue s)"
    by blast
  let ?s1 = "s\<lparr>queue := q', producer := p'\<rparr>"
  have st: "sys_step out (SysPush v) s = (EvPush v True, ?s1)" by (simp add: p)
  have "spmc_inv (W @ [v]) (queue ?s1) (producer ?s1)" using i by simp
  from Cons.IH [OF this] obtain s'
    where "sys_run out ?s1 (map SysPush vs) = (map (\<lambda>v. EvPush v True) vs, s')"
      and "spmc_inv ((W @ [v]) @ vs) (queue s') (producer s')"
      and "consumers s' = consumers ?s1"
      and "spmc_capacity (queue s') = spmc_capacity (queue ?s1)"
    by blast
  then show ?case using st c by (auto simp del: sys_step.simps)
qed

text \<open>
  Claim C2.  Against the modelled \<^verbatim>\<open>respawn\<close>: in every reachable state, after \<^verbatim>\<open>respawn\<close> the
  consumer's read index and version are the producer's; its next \<^verbatim>\<open>pop\<close> returns false
  (empty) and raises nothing; after fewer than \<open>capacity\<close> further pushes its next
  \<^verbatim>\<open>pop\<close> delivers the first of them; and as long as it is not overlapped again, what it pops
  is the leading part of the values pushed after the \<^verbatim>\<open>respawn\<close>, none from before.
\<close>

theorem C2_respawn:
  assumes "SPMCQ_new h t0 cap = Inr q0" and "sys_run out (sys_new q0) ops = (es, s)"
    and "i < length (consumers s)"
  shows "let c' = respawn (queue s) (producer s) (consumers s ! i);
             s' = s\<lparr>consumers := (consumers s)[i := c']\<rparr>
         in lReadIdx c' = lWriteIdx (producer s) \<and>
            cons_lVersion c' = prod_lVersion (producer s) \<and>
            sys_step out (SysPop i) s' = (EvPopEmpty i, s') \<and>
            (\<forall>vs. length vs < unat cap \<longrightarrow>
               fst (sys_step out (SysPop i) (snd (sys_run out s' (map SysPush vs))))
                 = (case vs of [] \<Rightarrow> EvPopEmpty i | v # _ \<Rightarrow> EvPopOk i v)) \<and>
            (\<forall>ops' es' s''.
               sys_run out s' ops' = (es', s'') \<and>
               length (pushes es) + length (pushes es') < 2 ^ 32 * unat cap \<and>
               EvOverlapped i \<notin> set es' \<longrightarrow>
               pops i es' = take (length (pops i es')) (pushes es'))"
proof -
  let ?q = "queue s" and ?p = "producer s"
  let ?W = "pushes es"
  let ?C = "unat cap"
  define c' where "c' = respawn ?q ?p (consumers s ! i)"
  define s' where "s' = s\<lparr>consumers := (consumers s)[i := c']\<rparr>"
  note inv = sys_reach_inv [OF assms(1,2)]
  have caps: "cons_capacity (consumers s ! i) = cap"
    using sys_reach_wf [OF assms(1,2)] assms(3) by (simp add: cons_wf_def)
  from inv(1) have c: "pow2_ge2 (spmc_capacity ?q)"
    and wi: "unat (lWriteIdx ?p) = length ?W mod unat (spmc_capacity ?q)"
    and ver: "prod_lVersion ?p = of_nat (length ?W div unat (spmc_capacity ?q))"
    and mr: "mReadIndex ?q = lWriteIdx ?p"
    unfolding spmc_inv_def by blast+
  have qs': "queue s' = ?q" "producer s' = ?p" "length (consumers s') = length (consumers s)"
    "consumers s' ! i = c'" using assms(3) by (simp_all add: s'_def)
  have A: "lReadIdx c' = lWriteIdx ?p" by (simp add: c'_def respawn_def mr)
  have B: "cons_lVersion c' = prod_lVersion ?p" by (simp add: c'_def respawn_def)
  have cc: "cons_capacity c' = cap"
    using caps by (simp add: c'_def respawn_def)
  have at: "cons_at cap (length ?W) c'"
    unfolding cons_at_def using A B cc wi ver inv(2) by simp
  have inv': "spmc_inv ?W (queue s') (producer s')" using inv(1) by (simp add: qs')
  have tr: "tracks (spmc_capacity (queue s')) (length ?W) i (consumers s')"
    using at assms(3) by (simp add: tracks_def qs' inv(2))
  have pop0: "spmc_pop ?q c' out = Inr (False, out, c')"
    by (simp add: spmc_pop_def A mr)
  have Cc: "sys_step out (SysPop i) s' = (EvPopEmpty i, s')"
    using assms(3) pop0 by (simp add: qs') (simp add: s'_def)
  have D: "fst (sys_step out (SysPop i) (snd (sys_run out s' (map SysPush vs))))
            = (case vs of [] \<Rightarrow> EvPopEmpty i | v # _ \<Rightarrow> EvPopOk i v)"
    if len: "length vs < ?C" for vs
  proof (cases vs)
    case Nil
    then show ?thesis using Cc by simp
  next
    case (Cons v vs')
    from sys_run_pushes [OF inv', of out vs] obtain s2
      where run: "sys_run out s' (map SysPush vs) = (map (\<lambda>v. EvPush v True) vs, s2)"
        and inv2: "spmc_inv (?W @ vs) (queue s2) (producer s2)"
        and cs2: "consumers s2 = consumers s'"
        and cap2: "spmc_capacity (queue s2) = spmc_capacity (queue s')"
      by blast
    have cap2': "spmc_capacity (queue s2) = cap" using cap2 inv(2) by (simp add: qs')
    have at2: "cons_at (spmc_capacity (queue s2)) (length ?W) c'" using at cap2' by simp
    have "length ?W mod ?C \<noteq> (length ?W + length vs) mod ?C"
      using mod_add_neq [of "length vs" ?C "length ?W"] len Cons by simp
    then have ne: "lReadIdx c' \<noteq> mReadIndex (queue s2)"
      using spmc_pop_empty_iff [OF inv2 at2] cap2' by simp
    have lt: "length ?W < length (?W @ vs)" using Cons by simp
    have near: "length (?W @ vs) \<le> length ?W + unat (spmc_capacity (queue s2))"
      using len cap2' by simp
    from spmc_pop_ok [OF inv2 at2 ne lt near, of out] obtain c2
      where "spmc_pop (queue s2) c' out = Inr (True, (?W @ vs) ! length ?W, c2)" by blast
    then have "spmc_pop (queue s2) (consumers s2 ! i) out = Inr (True, v, c2)"
      using Cons cs2 qs'(4) by simp
    then show ?thesis using run Cons assms(3) cs2 qs'(3) by simp
  qed
  have E: "pops i es' = take (length (pops i es')) (pushes es')"
    if h: "sys_run out s' ops' = (es', s'') \<and>
           length (pushes es) + length (pushes es') < 2 ^ 32 * unat cap \<and>
           EvOverlapped i \<notin> set es'" for ops' es' s''
  proof -
    from h have run: "sys_run out s' ops' = (es', s'')"
      and b: "length ?W + length (pushes es') < 2 ^ 32 * unat (spmc_capacity (queue s'))"
      and nov: "EvOverlapped i \<notin> set es'" by (simp_all add: qs' inv(2))
    from sys_run_track [OF run inv' tr _ b nov] show ?thesis by simp
  qed
  from A B Cc D E show ?thesis
    unfolding Let_def c'_def [symmetric] s'_def [symmetric] by blast
qed


theorem C2_respawn_witness:
  "SPMCQ_new \<lparr>elem_size = 128, mem_free = 4096\<rparr> (0::int) 2
     = Inr \<lparr>spmc_capacity = 2, spmc_items = replicate 2 \<lparr>data = 0, version = 0\<rparr>,
            mReadIndex = 0, mWriteIndex = 0\<rparr> \<and>
   sys_run 0 (sys_new \<lparr>spmc_capacity = 2,
                       spmc_items = replicate 2 \<lparr>data = 0::int, version = 0\<rparr>,
                       mReadIndex = 0, mWriteIndex = 0\<rparr>)
       [SysGetConsumer, SysPush 1, SysPush 2, SysPush 3, SysPop 0]
     = ([EvGetConsumer 0, EvPush 1 True, EvPush 2 True, EvPush 3 True, EvOverlapped 0],
        \<lparr>queue = \<lparr>spmc_capacity = 2,
                   spmc_items = [\<lparr>data = 3, version = 1\<rparr>, \<lparr>data = 2, version = 0\<rparr>],
                   mReadIndex = 1, mWriteIndex = 1\<rparr>,
         producer = \<lparr>prod_capacity = 2, lWriteIdx = 1, prod_lVersion = 1\<rparr>,
         consumers = [\<lparr>cons_capacity = 2, lReadIdx = 0, cons_lVersion = 0\<rparr>]\<rparr>) \<and>
   respawn \<lparr>spmc_capacity = 2,
            spmc_items = [\<lparr>data = 3::int, version = 1\<rparr>, \<lparr>data = 2, version = 0\<rparr>],
            mReadIndex = 1, mWriteIndex = 1\<rparr>
           \<lparr>prod_capacity = 2, lWriteIdx = 1, prod_lVersion = 1\<rparr>
           \<lparr>cons_capacity = 2, lReadIdx = 0, cons_lVersion = 0\<rparr>
     = \<lparr>cons_capacity = 2, lReadIdx = 1, cons_lVersion = 1\<rparr> \<and>
   fst (sys_step 0 (SysPop 0)
         \<lparr>queue = \<lparr>spmc_capacity = 2,
                    spmc_items = [\<lparr>data = 3::int, version = 1\<rparr>, \<lparr>data = 2, version = 0\<rparr>],
                    mReadIndex = 1, mWriteIndex = 1\<rparr>,
          producer = \<lparr>prod_capacity = 2, lWriteIdx = 1, prod_lVersion = 1\<rparr>,
          consumers = [\<lparr>cons_capacity = 2, lReadIdx = 1, cons_lVersion = 1\<rparr>]\<rparr>)
     = EvPopEmpty 0 \<and>
   fst (sys_step 0 (SysPop 0) (snd (sys_run 0
         \<lparr>queue = \<lparr>spmc_capacity = 2,
                    spmc_items = [\<lparr>data = 3::int, version = 1\<rparr>, \<lparr>data = 2, version = 0\<rparr>],
                    mReadIndex = 1, mWriteIndex = 1\<rparr>,
          producer = \<lparr>prod_capacity = 2, lWriteIdx = 1, prod_lVersion = 1\<rparr>,
          consumers = [\<lparr>cons_capacity = 2, lReadIdx = 1, cons_lVersion = 1\<rparr>]\<rparr>
         (map SysPush [4]))))
     = EvPopOk 0 4"
proof -
  let ?Q = "\<lparr>spmc_capacity = 2, spmc_items = replicate 2 \<lparr>data = 0::int, version = 0\<rparr>,
            mReadIndex = 0, mWriteIndex = 0\<rparr>"
  let ?ops = "[SysGetConsumer, SysPush (1::int), SysPush 2, SysPush 3, SysPop 0]"
  let ?es = "[EvGetConsumer 0, EvPush (1::int) True, EvPush 2 True, EvPush 3 True, EvOverlapped 0]"
  let ?q = "\<lparr>spmc_capacity = 2,
             spmc_items = [\<lparr>data = 3::int, version = 1\<rparr>, \<lparr>data = 2, version = 0\<rparr>],
             mReadIndex = 1, mWriteIndex = 1\<rparr>"
  let ?p = "\<lparr>prod_capacity = 2, lWriteIdx = 1, prod_lVersion = 1\<rparr>"
  let ?c = "\<lparr>cons_capacity = 2, lReadIdx = 0, cons_lVersion = 0\<rparr>"
  let ?c' = "\<lparr>cons_capacity = 2, lReadIdx = 1, cons_lVersion = 1\<rparr>"
  let ?S = "\<lparr>queue = ?q, producer = ?p, consumers = [?c]\<rparr>"
  let ?S' = "\<lparr>queue = ?q, producer = ?p, consumers = [?c']\<rparr>"
  have 1: "SPMCQ_new \<lparr>elem_size = 128, mem_free = 4096\<rparr> (0::int) 2 = Inr ?Q" by code_simp
  have 2: "sys_run 0 (sys_new ?Q) ?ops = (?es, ?S)"
    by (simp add: sys_new_def getProducer_def getConsumer_def spmc_push_eq spmc_pop_def
        numeral_2_eq_2)
  have 3: "0 < length (consumers ?S)" by simp
  have 4: "respawn ?q ?p ?c = ?c'" by (simp add: respawn_def)
  have e1: "respawn (queue ?S) (producer ?S) (consumers ?S ! 0) = ?c'"
    by (simp add: respawn_def)
  have e2: "?S\<lparr>consumers := (consumers ?S)[0 := ?c']\<rparr> = ?S'" by simp
  have 6: "length [4::int] < unat (2::size_t)" by simp
  note t = C2_respawn [OF 1 2 3, unfolded Let_def e1 e2]
  from t have "sys_step 0 (SysPop 0) ?S' = (EvPopEmpty 0, ?S')" by blast
  then have a: "fst (sys_step 0 (SysPop 0) ?S') = EvPopEmpty 0" by (simp only: fst_conv)
  from t have "\<forall>vs. length vs < unat (2::size_t) \<longrightarrow>
           fst (sys_step 0 (SysPop 0) (snd (sys_run 0 ?S' (map SysPush vs))))
             = (case vs of [] \<Rightarrow> EvPopEmpty 0 | v # _ \<Rightarrow> EvPopOk 0 v)" by blast
  from this [rule_format, OF 6]
  have b: "fst (sys_step 0 (SysPop 0) (snd (sys_run 0 ?S' (map SysPush [4])))) = EvPopOk 0 4"
    by (simp only: list.case)
  from 1 2 4 a b show ?thesis by blast
qed

section \<open>MPSC: the cell sequences hold a FIFO list\<close>

lemma unat_of_nat_mask:
  assumes "k \<le> LENGTH('a)"
  shows "unat ((of_nat n :: 'a::len word) AND (2 ^ k - 1)) = n mod 2 ^ k"
proof -
  have d: "(2::nat) ^ k dvd 2 ^ LENGTH('a)" using assms by (simp add: le_imp_power_dvd)
  have "unat ((of_nat n :: 'a word) AND (2 ^ k - 1)) = (n mod 2 ^ LENGTH('a)) mod 2 ^ k"
    by (simp only: unat_and_pow2 unat_of_nat)
  also have "\<dots> = n mod 2 ^ k" using d by (rule mod_mod_cancel)
  finally show ?thesis .
qed

lemma of_nat_idx:
  assumes "pow2_ge2 c"
  shows "unat ((of_nat n :: size_t) AND (c - 1)) = n mod unat c"
proof (rule pow2_ge2_D [OF assms])
  fix k assume k: "k < 64" "c = 2 ^ k" "unat c = 2 ^ k"
  have "k \<le> LENGTH(64)" using k(1) by simp
  from unat_of_nat_mask [OF this, of n] show ?thesis unfolding k(3) unfolding k(2) .
qed

lemma sint_one_minus_cap:
  assumes "pow2_ge2 c"
  shows "sint (1 - c) < 0"
proof (rule pow2_ge2_D [OF assms])
  fix k assume k: "0 < k" "k < 64" "c = 2 ^ k"
  have "(1::size_t) - 2 ^ k = word_of_int (1 - 2 ^ k)" by simp
  then have "sint ((1::size_t) - 2 ^ k) = signed_take_bit (LENGTH(64) - 1) (1 - 2 ^ k :: int)"
    by (simp only: sint_sbintrunc')
  also have "\<dots> = 1 - 2 ^ k"
  proof (rule signed_take_bit_int_eq_self)
    have "(2::int) ^ k \<le> 2 ^ 63" using k(2) by (intro power_increasing) simp_all
    then show "- (2 ^ (LENGTH(64) - 1)) \<le> (1 - 2 ^ k :: int)" by simp
    show "(1 - 2 ^ k :: int) < 2 ^ (LENGTH(64) - 1)" by (smt (verit) zero_less_power)
  qed
  also have "\<dots> < 0" using k(1) by (smt (verit) one_less_power)
  finally show ?thesis unfolding k(3) .
qed

lemma mpsc_inv_new:
  assumes "MPSCQ_new h t0 c = Inr q"
  shows "mpsc_inv [] q" and "mpsc_capacity q = c"
proof -
  let ?f = "\<lambda>i b. b[i := (b ! i)\<lparr>sequence := of_nat i\<rparr>]"
  let ?b0 = "replicate (unat c) \<lparr>sequence = 0, cell_value = t0\<rparr>"
  from assms have ok: "pow2_ge2 c"
    and q: "q = \<lparr>mpsc_capacity = c, mpsc_mask = c - 1,
                 buffer = fold ?f [0..<unat c] ?b0, head = 0, tail = 0\<rparr>"
    using and_test_iff [of c] by (auto simp: MPSCQ_new_def make_unique_def Let_def split: if_splits)
  show "mpsc_capacity q = c" by (simp add: q)
  have f: "length (fold ?f [0..<unat c] ?b0) = unat c"
    "\<And>i. i < unat c \<Longrightarrow> sequence (fold ?f [0..<unat c] ?b0 ! i) = of_nat i"
    using fold_seq_init [of "unat c" ?b0] by simp_all
  show "mpsc_inv [] q"
    unfolding mpsc_inv_def
  proof (intro conjI exI [of _ 0] allI impI)
    show "pow2_ge2 (mpsc_capacity q)" using ok by (simp add: q)
    show "mpsc_mask q = mpsc_capacity q - 1" by (simp add: q)
    show "length (buffer q) = unat (mpsc_capacity q)" using f(1) by (simp add: q)
    show "length [] \<le> unat (mpsc_capacity q)" by simp
    show "tail q = of_nat 0" by (simp add: q)
    show "head q = of_nat (0 + length [])" by (simp add: q)
  next
    fix j assume "j < length ([]::'a list)"
    then show "buffer q ! ((0 + j) mod unat (mpsc_capacity q))
                 = \<lparr>sequence = of_nat (0 + j + 1), cell_value = [] ! j\<rparr>" by simp
  next
    fix j assume "length ([]::'a list) \<le> j \<and> j < unat (mpsc_capacity q)"
    then have "j < unat c" by (simp add: q)
    then show "sequence (buffer q ! ((0 + j) mod unat (mpsc_capacity q))) = of_nat (0 + j)"
      using f(2) by (simp add: q)
  qed
qed

lemma mpsc_inv_size: "mpsc_inv xs q \<Longrightarrow> unat (mpsc_size q) = length xs"
proof -
  assume a: "mpsc_inv xs q"
  then obtain t where t: "tail q = of_nat t" "head q = of_nat (t + length xs)"
    and n: "length xs \<le> unat (mpsc_capacity q)"
    unfolding mpsc_inv_def by blast
  have "mpsc_size q = of_nat (length xs)" by (simp add: mpsc_size_def t)
  moreover have "length xs < 2 ^ LENGTH(64)"
    using n unsigned_less [of "mpsc_capacity q", where 'a = nat] by simp
  ultimately show ?thesis by (simp add: unat_of_nat)
qed

lemma mpsc_push_inv:
  assumes "mpsc_inv xs q"
  shows "if length xs = unat (mpsc_capacity q) then mpsc_push q v = Some (False, q)
         else (\<exists>q'. mpsc_push q v = Some (True, q') \<and> mpsc_inv (xs @ [v]) q' \<and>
                    mpsc_capacity q' = mpsc_capacity q)"
proof -
  let ?C = "unat (mpsc_capacity q)"
  let ?n = "length xs"
  from assms obtain t where c: "pow2_ge2 (mpsc_capacity q)"
    and mk: "mpsc_mask q = mpsc_capacity q - 1"
    and len: "length (buffer q) = ?C" and n: "?n \<le> ?C"
    and tl: "tail q = of_nat t" and hd: "head q = of_nat (t + ?n)"
    and el: "\<forall>j<?n. buffer q ! ((t + j) mod ?C)
                      = \<lparr>sequence = of_nat (t + j + 1), cell_value = xs ! j\<rparr>"
    and fr: "\<forall>j. ?n \<le> j \<and> j < ?C \<longrightarrow> sequence (buffer q ! ((t + j) mod ?C)) = of_nat (t + j)"
    unfolding mpsc_inv_def by blast
  have Cpos: "0 < ?C" using pow2_ge2_ge2 [OF c] by simp
  have idx: "unat (head q AND mpsc_mask q) = (t + ?n) mod ?C"
    unfolding hd mk by (rule of_nat_idx [OF c])
  show ?thesis
  proof (cases "?n = ?C")
    case True
    have "(t + ?n) mod ?C = (t + 0) mod ?C" unfolding True by simp
    moreover have "buffer q ! ((t + 0) mod ?C) = \<lparr>sequence = of_nat (t + 0 + 1), cell_value = xs ! 0\<rparr>"
      using el [rule_format, of 0] True Cpos by simp
    ultimately have seq: "sequence (buffer q ! unat (head q AND mpsc_mask q)) = of_nat (t + 1)"
      by (simp add: idx)
    have "(of_nat (t + 1) :: size_t) - head q = 1 - mpsc_capacity q"
      unfolding hd True by simp
    then have "sequence (buffer q ! unat (head q AND mpsc_mask q)) - head q = 1 - mpsc_capacity q"
      unfolding seq .
    then have d: "sint (sequence (buffer q ! unat (head q AND mpsc_mask q)) - head q) < 0"
      using sint_one_minus_cap [OF c] by (simp only:)
    have "emplace_loop q (head q) = Some None"
      by (subst emplace_loop.simps) (use d in \<open>simp add: Let_def\<close>)
    then show ?thesis using True by (simp add: mpsc_push_def emplace_impl_def)
  next
    case False
    with n have nlt: "?n < ?C" by simp
    let ?i = "(t + ?n) mod ?C"
    let ?q' = "q\<lparr>head := head q + 1,
                  buffer := (buffer q)[?i := \<lparr>sequence = head q + 1, cell_value = v\<rparr>]\<rparr>"
    have "sequence (buffer q ! ((t + ?n) mod ?C)) = of_nat (t + ?n)"
      using fr [rule_format, of ?n] nlt by simp
    then have seq: "sequence (buffer q ! unat (head q AND mpsc_mask q)) = head q"
      unfolding idx unfolding hd .
    have loop: "emplace_loop q (head q) = Some (Some (head q, q\<lparr>head := head q + 1\<rparr>))"
      by (subst emplace_loop.simps) (simp add: seq Let_def)
    have push: "mpsc_push q v = Some (True, ?q')"
      by (simp add: mpsc_push_def emplace_impl_def loop idx)
    have ilt: "?i < length (buffer q)" using len Cpos by simp
    have "mpsc_inv (xs @ [v]) ?q'"
      unfolding mpsc_inv_def
    proof (intro conjI exI [of _ t] allI impI)
      show "pow2_ge2 (mpsc_capacity ?q')" using c by simp
      show "mpsc_mask ?q' = mpsc_capacity ?q' - 1" using mk by simp
      show "length (buffer ?q') = unat (mpsc_capacity ?q')" using len by simp
      show "length (xs @ [v]) \<le> unat (mpsc_capacity ?q')" using nlt by simp
      show "tail ?q' = of_nat t" using tl by simp
      show "head ?q' = of_nat (t + length (xs @ [v]))" by (simp add: hd)
    next
      fix j assume j: "j < length (xs @ [v])"
      show "buffer ?q' ! ((t + j) mod unat (mpsc_capacity ?q'))
              = \<lparr>sequence = of_nat (t + j + 1), cell_value = (xs @ [v]) ! j\<rparr>"
      proof (cases "j = ?n")
        case True
        then show ?thesis using ilt by (simp add: hd)
      next
        case False
        with j have jn: "j < ?n" by simp
        have "(t + j) mod ?C \<noteq> ?i"
        proof
          assume "(t + j) mod ?C = ?i"
          from mod_inj_window [OF this] jn nlt show False by simp
        qed
        then show ?thesis using el jn by (simp add: nth_append)
      qed
    next
      fix j assume j: "length (xs @ [v]) \<le> j \<and> j < unat (mpsc_capacity ?q')"
      then have jn: "?n < j" "j < ?C" by simp_all
      have "(t + j) mod ?C \<noteq> ?i"
      proof
        assume "(t + j) mod ?C = ?i"
        from mod_inj_window [OF this [symmetric]] jn show False by simp
      qed
      then show "sequence (buffer ?q' ! ((t + j) mod unat (mpsc_capacity ?q'))) = of_nat (t + j)"
        using fr jn by simp
    qed
    then show ?thesis using False push by simp
  qed
qed

lemma mpsc_pop_inv:
  assumes "mpsc_inv xs q"
  shows "case xs of [] \<Rightarrow> mpsc_pop q out = (False, out, q)
         | x # xs' \<Rightarrow> (\<exists>q'. mpsc_pop q out = (True, x, q') \<and> mpsc_inv xs' q' \<and>
                            mpsc_capacity q' = mpsc_capacity q)"
proof -
  let ?C = "unat (mpsc_capacity q)"
  let ?n = "length xs"
  from assms obtain t where c: "pow2_ge2 (mpsc_capacity q)"
    and mk: "mpsc_mask q = mpsc_capacity q - 1"
    and len: "length (buffer q) = ?C" and n: "?n \<le> ?C"
    and tl: "tail q = of_nat t" and hd: "head q = of_nat (t + ?n)"
    and el: "\<forall>j<?n. buffer q ! ((t + j) mod ?C)
                      = \<lparr>sequence = of_nat (t + j + 1), cell_value = xs ! j\<rparr>"
    and fr: "\<forall>j. ?n \<le> j \<and> j < ?C \<longrightarrow> sequence (buffer q ! ((t + j) mod ?C)) = of_nat (t + j)"
    unfolding mpsc_inv_def by blast
  have Cpos: "0 < ?C" using pow2_ge2_ge2 [OF c] by simp
  have idx: "unat (tail q AND mpsc_mask q) = t mod ?C"
    unfolding tl mk by (rule of_nat_idx [OF c])
  let ?i = "t mod ?C"
  show ?thesis
  proof (cases xs)
    case Nil
    have "sequence (buffer q ! ((t + 0) mod ?C)) = of_nat (t + 0)"
      using fr Nil Cpos by (intro fr [rule_format]) simp
    then have "sequence (buffer q ! ?i) - (tail q + 1) = - 1" by (simp add: tl)
    then have "sint (sequence (buffer q ! ?i) - (tail q + 1)) < 0" by simp
    then show ?thesis using Nil by (simp add: mpsc_pop_def pop_impl_def Let_def idx)
  next
    case (Cons x xs')
    have cell: "buffer q ! ?i = \<lparr>sequence = of_nat (t + 1), cell_value = x\<rparr>"
      using el [rule_format, of 0] Cons by simp
    let ?q' = "q\<lparr>buffer := (buffer q)[?i := (buffer q ! ?i)\<lparr>sequence := tail q + mpsc_capacity q\<rparr>],
                  tail := tail q + 1\<rparr>"
    have "sequence (buffer q ! ?i) - (tail q + 1) = 0" by (simp add: cell tl)
    then have "\<not> sint (sequence (buffer q ! ?i) - (tail q + 1)) < 0" by simp
    then have pop: "mpsc_pop q out = (True, x, ?q')"
      by (simp add: mpsc_pop_def pop_impl_def Let_def idx cell)
    have ilt: "?i < length (buffer q)" using len Cpos by simp
    have capn: "(of_nat ?C :: size_t) = mpsc_capacity q" by simp
    have "mpsc_inv xs' ?q'"
      unfolding mpsc_inv_def
    proof (intro conjI exI [of _ "Suc t"] allI impI)
      show "pow2_ge2 (mpsc_capacity ?q')" using c by simp
      show "mpsc_mask ?q' = mpsc_capacity ?q' - 1" using mk by simp
      show "length (buffer ?q') = unat (mpsc_capacity ?q')" using len by simp
      show "length xs' \<le> unat (mpsc_capacity ?q')" using n Cons by simp
      show "tail ?q' = of_nat (Suc t)" by (simp add: tl)
      show "head ?q' = of_nat (Suc t + length xs')" using Cons by (simp add: hd)
    next
      fix j assume j: "j < length xs'"
      then have j1: "Suc j < ?n" using Cons by simp
      have "(t + Suc j) mod ?C \<noteq> ?i"
      proof
        assume "(t + Suc j) mod ?C = t mod ?C"
        from mod_inj_window [OF this [symmetric]] j1 n show False by simp
      qed
      moreover have "buffer q ! ((t + Suc j) mod ?C)
          = \<lparr>sequence = of_nat (t + Suc j + 1), cell_value = xs ! Suc j\<rparr>"
        using el j1 by blast
      ultimately show "buffer ?q' ! ((Suc t + j) mod unat (mpsc_capacity ?q'))
              = \<lparr>sequence = of_nat (Suc t + j + 1), cell_value = xs' ! j\<rparr>"
        using Cons by simp
    next
      fix j assume j: "length xs' \<le> j \<and> j < unat (mpsc_capacity ?q')"
      then have jn: "?n \<le> Suc j" "j < ?C" using Cons by simp_all
      show "sequence (buffer ?q' ! ((Suc t + j) mod unat (mpsc_capacity ?q'))) = of_nat (Suc t + j)"
      proof (cases "Suc j = ?C")
        case True
        then have "(Suc t + j) mod ?C = ?i" by (metis add_Suc_right add_Suc mod_add_self2)
        moreover have "(of_nat (Suc t + j) :: size_t) = tail q + mpsc_capacity q"
          using True by (metis add_Suc_right add_Suc of_nat_add capn tl)
        ultimately show ?thesis using ilt by simp
      next
        case False
        with jn have lt: "Suc j < ?C" by simp
        have "(t + Suc j) mod ?C \<noteq> ?i"
        proof
          assume "(t + Suc j) mod ?C = t mod ?C"
          from mod_inj_window [OF this [symmetric]] lt show False by simp
        qed
        moreover have "sequence (buffer q ! ((t + Suc j) mod ?C)) = of_nat (t + Suc j)"
          using fr jn(1) lt by blast
        ultimately show ?thesis by simp
      qed
    qed
    then show ?thesis using pop Cons by simp
  qed
qed

lemma mpsc_run_inv:
  "mpsc_inv xs q \<Longrightarrow>
   \<exists>es q' ys. mpsc_run out q ops = Some (es, q') \<and> mpsc_inv ys q' \<and>
        xs @ pushed es = popped es @ ys \<and> mpsc_capacity q' = mpsc_capacity q"
proof (induction ops arbitrary: xs q out)
  case Nil
  then show ?case by auto
next
  case (Cons a ops)
  show ?case
  proof (cases a)
    case (Push v)
    show ?thesis
    proof (cases "length xs = unat (mpsc_capacity q)")
      case True
      with mpsc_push_inv [OF Cons.prems, of v] have p: "mpsc_push q v = Some (False, q)" by simp
      from Cons.IH [OF Cons.prems, of out] obtain es q' ys
        where "mpsc_run out q ops = Some (es, q')" "mpsc_inv ys q'"
          "xs @ pushed es = popped es @ ys" "mpsc_capacity q' = mpsc_capacity q" by blast
      then show ?thesis using Push p by simp
    next
      case False
      with mpsc_push_inv [OF Cons.prems, of v] obtain q1
        where p: "mpsc_push q v = Some (True, q1)" and i: "mpsc_inv (xs @ [v]) q1"
          and c: "mpsc_capacity q1 = mpsc_capacity q" by auto
      from Cons.IH [OF i, of out] obtain es q' ys
        where "mpsc_run out q1 ops = Some (es, q')" "mpsc_inv ys q'"
          "(xs @ [v]) @ pushed es = popped es @ ys" "mpsc_capacity q' = mpsc_capacity q1" by blast
      then show ?thesis using Push p c by simp
    qed
  next
    case Pop
    show ?thesis
    proof (cases xs)
      case Nil
      with mpsc_pop_inv [OF Cons.prems, of out] have p: "mpsc_pop q out = (False, out, q)"
        by simp
      from Cons.IH [OF Cons.prems, of out] obtain es q' ys
        where "mpsc_run out q ops = Some (es, q')" "mpsc_inv ys q'"
          "xs @ pushed es = popped es @ ys" "mpsc_capacity q' = mpsc_capacity q" by blast
      then show ?thesis using Pop p by simp
    next
      case (Cons x xs')
      with mpsc_pop_inv [OF Cons.prems, of out] obtain q1
        where p: "mpsc_pop q out = (True, x, q1)" and i: "mpsc_inv xs' q1"
          and c: "mpsc_capacity q1 = mpsc_capacity q" by auto
      from Cons.IH [OF i, of x] obtain es q' ys
        where "mpsc_run x q1 ops = Some (es, q')" "mpsc_inv ys q'"
          "xs' @ pushed es = popped es @ ys" "mpsc_capacity q' = mpsc_capacity q1" by blast
      then show ?thesis using Pop p c Cons by simp
    qed
  qed
qed

text \<open>Popping as often as \<open>size()\<close> says delivers the pending values, each once.\<close>

lemma mpsc_drain:
  "mpsc_inv xs q \<Longrightarrow>
   \<exists>q'. mpsc_run out q (replicate (length xs) Pop) = Some (map PopOk xs, q') \<and> mpsc_inv [] q'"
proof (induction xs arbitrary: q out)
  case Nil
  then show ?case by simp
next
  case (Cons x xs)
  from mpsc_pop_inv [OF Cons.prems, of out] obtain q1
    where p: "mpsc_pop q out = (True, x, q1)" and i: "mpsc_inv xs q1" by auto
  from Cons.IH [OF i, of x] obtain q'
    where "mpsc_run x q1 (replicate (length xs) Pop) = Some (map PopOk xs, q')" "mpsc_inv [] q'"
    by blast
  then show ?case using p by simp
qed

lemma mpsc_push_false_unchanged:
  "mpsc_push q v = Some (False, q') \<Longrightarrow> q' = q"
  by (auto simp: mpsc_push_def emplace_impl_def split: option.splits)

lemma mpsc_inv_full:
  assumes "mpsc_inv xs q"
  shows "mpsc_full q \<longleftrightarrow> length xs = unat (mpsc_capacity q)"
proof -
  from assms have "length xs \<le> unat (mpsc_capacity q)" unfolding mpsc_inv_def by blast
  then show ?thesis
    using mpsc_inv_size [OF assms] by (auto simp: mpsc_full_def word_le_nat_alt)
qed

text \<open>
  Claim C8.  Every sequence of \<^verbatim>\<open>push\<close> and \<^verbatim>\<open>pop\<close> calls on a constructed MPSC queue returns.
  The values popped are, in order, the first of the values pushed with success; the number
  of successful pushes is the number of successful pops plus \<open>size()\<close>; popping \<open>size()\<close>
  more times delivers exactly the values still pending, so each is popped once; \<^verbatim>\<open>push\<close>
  returns false exactly when the queue is full, and then leaves the queue as it was.
\<close>

theorem C8_mpsc_conservation:
  assumes "MPSCQ_new h t0 cap = Inr q0"
  shows "\<exists>es q. mpsc_run out q0 ops = Some (es, q) \<and>
           popped es = take (length (popped es)) (pushed es) \<and>
           length (pushed es) = length (popped es) + unat (mpsc_size q) \<and>
           (\<exists>q'. mpsc_run out q (replicate (unat (mpsc_size q)) Pop)
                   = Some (map PopOk (drop (length (popped es)) (pushed es)), q') \<and>
                 mpsc_size q' = 0) \<and>
           (\<forall>v. if mpsc_full q then mpsc_push q v = Some (False, q)
                else (\<exists>q'. mpsc_push q v = Some (True, q'))) \<and>
           (\<forall>v q'. mpsc_push q v = Some (False, q') \<longrightarrow> q' = q)"
proof -
  note inv0 = mpsc_inv_new(1) [OF assms]
  from mpsc_run_inv [OF inv0, of out ops] obtain es q ys
    where run: "mpsc_run out q0 ops = Some (es, q)" and inv: "mpsc_inv ys q"
      and e0: "[] @ pushed es = popped es @ ys" by blast
  have e: "pushed es = popped es @ ys" using e0 by simp
  have sz: "unat (mpsc_size q) = length ys" by (rule mpsc_inv_size [OF inv])
  have A: "popped es = take (length (popped es)) (pushed es)" by (simp add: e)
  have B: "length (pushed es) = length (popped es) + unat (mpsc_size q)" by (simp add: e sz)
  from mpsc_drain [OF inv, of out] obtain q'
    where d: "mpsc_run out q (replicate (length ys) Pop) = Some (map PopOk ys, q')"
      and i': "mpsc_inv [] q'" by blast
  have "unat (mpsc_size q') = 0" using mpsc_inv_size [OF i'] by simp
  then have z: "mpsc_size q' = 0" by (simp add: unat_eq_0)
  have dr: "drop (length (popped es)) (pushed es) = ys" by (simp add: e)
  have C: "\<exists>q'. mpsc_run out q (replicate (unat (mpsc_size q)) Pop)
                   = Some (map PopOk (drop (length (popped es)) (pushed es)), q') \<and>
                 mpsc_size q' = 0"
    unfolding sz dr using d z by blast
  have D: "if mpsc_full q then mpsc_push q v = Some (False, q)
           else (\<exists>q'. mpsc_push q v = Some (True, q'))" for v
  proof (cases "length ys = unat (mpsc_capacity q)")
    case True
    then show ?thesis using mpsc_push_inv [OF inv, of v] mpsc_inv_full [OF inv] by simp
  next
    case False
    with mpsc_push_inv [OF inv, of v] obtain q1 where "mpsc_push q v = Some (True, q1)" by auto
    then show ?thesis using False mpsc_inv_full [OF inv] by simp
  qed
  have E: "\<forall>v q'. mpsc_push q v = Some (False, q') \<longrightarrow> q' = q"
    by (intro allI impI) (rule mpsc_push_false_unchanged)
  have D': "\<forall>v. if mpsc_full q then mpsc_push q v = Some (False, q)
                else (\<exists>q'. mpsc_push q v = Some (True, q'))" by (intro allI) (rule D)
  note all = conjI [OF run conjI [OF A conjI [OF B conjI [OF C conjI [OF D' E]]]]]
  show ?thesis
    by (rule exI [where x = es], rule exI [where x = q], rule all)
qed

theorem C8_mpsc_conservation_witness:
  "MPSCQ_new \<lparr>elem_size = 16, mem_free = 4096\<rparr> (0::int) 2
     = Inr \<lparr>mpsc_capacity = 2, mpsc_mask = 1,
            buffer = [\<lparr>sequence = 0, cell_value = 0\<rparr>, \<lparr>sequence = 1, cell_value = 0\<rparr>],
            head = 0, tail = 0\<rparr> \<and>
   mpsc_run 0 \<lparr>mpsc_capacity = 2, mpsc_mask = 1,
               buffer = [\<lparr>sequence = 0, cell_value = 0::int\<rparr>, \<lparr>sequence = 1, cell_value = 0\<rparr>],
               head = 0, tail = 0\<rparr>
       [Push 5, Push 6, Push 7, Pop, Push 8]
     = Some ([PushOk 5, PushOk 6, PushFull 7, PopOk 5, PushOk 8],
             \<lparr>mpsc_capacity = 2, mpsc_mask = 1,
              buffer = [\<lparr>sequence = 3, cell_value = 8\<rparr>, \<lparr>sequence = 2, cell_value = 6\<rparr>],
              head = 3, tail = 1\<rparr>) \<and>
   (\<exists>q'. mpsc_run 0 \<lparr>mpsc_capacity = 2, mpsc_mask = 1,
              buffer = [\<lparr>sequence = 3, cell_value = 8::int\<rparr>, \<lparr>sequence = 2, cell_value = 6\<rparr>],
              head = 3, tail = 1\<rparr> (replicate 2 Pop)
          = Some ([PopOk 6, PopOk 8], q') \<and> mpsc_size q' = 0) \<and>
   mpsc_push \<lparr>mpsc_capacity = 2, mpsc_mask = 1,
              buffer = [\<lparr>sequence = 3, cell_value = 8::int\<rparr>, \<lparr>sequence = 2, cell_value = 6\<rparr>],
              head = 3, tail = 1\<rparr> 9
     = Some (False, \<lparr>mpsc_capacity = 2, mpsc_mask = 1,
              buffer = [\<lparr>sequence = 3, cell_value = 8\<rparr>, \<lparr>sequence = 2, cell_value = 6\<rparr>],
              head = 3, tail = 1\<rparr>)"
proof -
  let ?Q = "\<lparr>mpsc_capacity = 2, mpsc_mask = 1,
            buffer = [\<lparr>sequence = 0, cell_value = 0::int\<rparr>, \<lparr>sequence = 1, cell_value = 0\<rparr>],
            head = 0, tail = 0\<rparr>"
  let ?R = "\<lparr>mpsc_capacity = 2, mpsc_mask = 1,
              buffer = [\<lparr>sequence = 3, cell_value = 8::int\<rparr>, \<lparr>sequence = 2, cell_value = 6\<rparr>],
              head = 3, tail = 1\<rparr>"
  let ?ops = "[Push (5::int), Push 6, Push 7, Pop, Push 8]"
  let ?es = "[PushOk (5::int), PushOk 6, PushFull 7, PopOk 5, PushOk 8]"
  have 1: "MPSCQ_new \<lparr>elem_size = 16, mem_free = 4096\<rparr> (0::int) 2 = Inr ?Q" by code_simp
  have 2: "mpsc_run 0 ?Q ?ops = Some (?es, ?R)" by code_simp
  have 3: "unat (mpsc_size ?R) = 2" by (simp add: mpsc_size_def)
  have 4: "mpsc_full ?R" by (simp add: mpsc_full_def mpsc_size_def)
  from C8_mpsc_conservation [OF 1, of 0 ?ops] 2
  have a: "\<exists>q'. mpsc_run 0 ?R (replicate (unat (mpsc_size ?R)) Pop)
                   = Some (map PopOk (drop (length (popped ?es)) (pushed ?es)), q') \<and>
                 mpsc_size q' = 0"
    and b: "\<forall>v. if mpsc_full ?R then mpsc_push ?R v = Some (False, ?R)
                else (\<exists>q'. mpsc_push ?R v = Some (True, q'))"
    by auto
  from a have a': "\<exists>q'. mpsc_run 0 ?R (replicate 2 Pop) = Some ([PopOk 6, PopOk 8], q') \<and>
                 mpsc_size q' = 0"
    unfolding 3 by simp
  from b 4 have b': "mpsc_push ?R 9 = Some (False, ?R)" by simp
  from 1 2 a' b' show ?thesis by blast
qed

end
